theory Spec2Isabelle
  imports Complex_Main "HOL-Library.Word" "HOL-Library.Monad_Syntax"
begin

section \<open>Numbers and typed arrays\<close>

text \<open>
  The analysed module is \<^verbatim>\<open>src/app/utils/analyze.ts\<close>. Its pixel buffers are
  \<^verbatim>\<open>Uint8ClampedArray\<close>s: lists of bytes, four per pixel (R, G, B, A). A JavaScript
  \<^verbatim>\<open>number\<close> is modelled by a real: arithmetic is exact, and the rounding of IEEE
  doubles and of \<^verbatim>\<open>Float32Array\<close> cells is not part of the model, except in the
  luma sum of the grayscale conversion, which is modelled in double precision. The one
  non-finite value the module can compute from a byte buffer is NaN (a read outside a
  buffer yields \<^verbatim>\<open>undefined\<close>, which arithmetic turns into NaN, and \<^verbatim>\<open>0 / 0\<close>);
  it is \<open>None\<close> in the type \<open>number\<close>, and the \<open>do\<close> blocks below propagate it as
  JavaScript arithmetic does.
\<close>

type_synonym u8 = "8 word"

type_synonym number = "real option"

text \<open>\<^verbatim>\<open>Math.round\<close>: the nearest integer, a tie going up.\<close>

definition js_round :: "real \<Rightarrow> int" where
  "js_round x = \<lfloor>x + 1 / 2\<rfloor>"

text \<open>
  A store into a \<^verbatim>\<open>Uint8ClampedArray\<close> cell (ToUint8Clamp): clamp to 0..255, then
  round to the nearest integer, a tie going to the even one. NaN is stored as 0.
\<close>

definition round_half_even :: "real \<Rightarrow> int" where
  "round_half_even x =
     (let f = \<lfloor>x\<rfloor> in
      if x - of_int f < 1 / 2 then f
      else if 1 / 2 < x - of_int f then f + 1
      else if even f then f else f + 1)"

definition toUint8Clamp :: "real \<Rightarrow> u8" where
  "toUint8Clamp x =
     (if x \<le> 0 then 0 else if 255 \<le> x then 255 else word_of_int (round_half_even x))"

text \<open>
  A read \<^verbatim>\<open>buf[i]\<close> used as a number: the byte inside the buffer, NaN outside.
\<close>

definition sample :: "u8 list \<Rightarrow> int \<Rightarrow> number" where
  "sample buf i =
     (if 0 \<le> i \<and> i < int (length buf) then Some (real (unat (buf ! nat i))) else None)"

section \<open>Grayscale conversion and intensity normalisation\<close>

text \<open>
  The luma sum of \<^verbatim>\<open>toGrayscale\<close> is the one computation of the module whose
  rounding in double precision changes a byte of the result (the exact sum of some
  colours lies at a tie \<open>k + 1 / 2\<close> that the double sum misses), so it is modelled in
  binary64: \<open>fl64\<close> rounds a real to the nearest double, a tie going to the even
  significand. The exponent range is not bounded: overflow and subnormal numbers do not
  occur in the sum, whose terms are 0 or lie between 1 / 16 and 256.
\<close>

definition fl64 :: "real \<Rightarrow> real" where
  "fl64 x =
     (if x = 0 then 0
      else let q = 2 powr (real_of_int \<lfloor>log 2 \<bar>x\<bar>\<rfloor> - 52)
           in real_of_int (round_half_even (x / q)) * q)"

text \<open>
  \<^verbatim>\<open>Math.round(0.2126 * r + 0.7152 * g + 0.0722 * b)\<close>: the three literals are
  doubles, every product and every sum is rounded, and the sum associates to the left.
\<close>

definition luma :: "u8 \<Rightarrow> u8 \<Rightarrow> u8 \<Rightarrow> int" where
  "luma r g b =
     js_round
       (fl64 (fl64 (fl64 (fl64 0.2126 * real (unat r)) + fl64 (fl64 0.7152 * real (unat g)))
              + fl64 (fl64 0.0722 * real (unat b))))"

text \<open>
  \<^verbatim>\<open>toGrayscale\<close> walks the buffer four bytes at a time. On a buffer whose length is
  not a multiple of four the last step reads \<^verbatim>\<open>undefined\<close> channels: with three
  bytes left only the alpha is missing and the three colour cells are written; with fewer
  the luma is NaN and the cells hold 0.
\<close>

fun toGrayscale :: "u8 list \<Rightarrow> u8 list" where
  "toGrayscale (r # g # b # a # rest) =
     (let y = toUint8Clamp (of_int (luma r g b)) in y # y # y # a # toGrayscale rest)"
| "toGrayscale [r, g, b] = (let y = toUint8Clamp (of_int (luma r g b)) in [y, y, y])"
| "toGrayscale rest = replicate (length rest) 0"

text \<open>
  The first loop of \<^verbatim>\<open>normalizeIntensity\<close>: the least and the greatest red byte of
  the pixels, starting from \<^verbatim>\<open>min = 255, max = 0\<close>.
\<close>

fun range_scan :: "u8 list \<Rightarrow> int \<times> int \<Rightarrow> int \<times> int" where
  "range_scan [] (mn, mx) = (mn, mx)"
| "range_scan (v # rest) (mn, mx) =
     range_scan (drop 3 rest)
       (if uint v < mn then uint v else mn, if mx < uint v then uint v else mx)"

definition stretch_value :: "int \<Rightarrow> int \<Rightarrow> u8 \<Rightarrow> int" where
  "stretch_value mn rng y = js_round (real_of_int (uint y - mn) / real_of_int rng * 255)"

text \<open>
  The second loop. The last pixel of a buffer whose length is not a multiple of four
  gets its colour cells as far as the buffer reaches.
\<close>

fun stretch :: "int \<Rightarrow> int \<Rightarrow> u8 list \<Rightarrow> u8 list" where
  "stretch mn rng (y # g # b # a # rest) =
     (let n = toUint8Clamp (of_int (stretch_value mn rng y))
      in n # n # n # a # stretch mn rng rest)"
| "stretch mn rng [] = []"
| "stretch mn rng (y # rest) =
     (let n = toUint8Clamp (of_int (stretch_value mn rng y))
      in replicate (Suc (length rest)) n)"

definition normalizeIntensity :: "u8 list \<Rightarrow> u8 list" where
  "normalizeIntensity data =
     (let (mn, mx) = range_scan data (255, 0); rng = max 1 (mx - mn)
      in stretch mn rng data)"

text \<open>The luma of each pixel of a buffer: the bytes at the indices 0, 4, 8, ...\<close>

fun lumas :: "u8 list \<Rightarrow> u8 list" where
  "lumas [] = []"
| "lumas (v # rest) = v # lumas (drop 3 rest)"

section \<open>Histogram\<close>

text \<open>
  The counting loop of \<^verbatim>\<open>computeHistogram\<close>, on the pair of the bins and the pixel
  count, and the division of every bin by the count (\<^verbatim>\<open>0 / 0\<close> for an empty buffer).
\<close>

fun tally :: "u8 list \<Rightarrow> nat list \<times> nat \<Rightarrow> nat list \<times> nat" where
  "tally [] (hist, count) = (hist, count)"
| "tally (v # rest) (hist, count) =
     tally (drop 3 rest) (hist[unat v := Suc (hist ! unat v)], Suc count)"

definition computeHistogram :: "u8 list \<Rightarrow> number list" where
  "computeHistogram data =
     (let (hist, count) = tally data (replicate 256 0, 0)
      in map (\<lambda>c. if count = 0 then None else Some (real c / real count)) hist)"

text \<open>The three reductions over the histogram in \<^verbatim>\<open>analyzeCtVsMri\<close>.\<close>

definition histMean :: "number list \<Rightarrow> number" where
  "histMean hist =
     fold (\<lambda>(p, i) s. do { a \<leftarrow> s; q \<leftarrow> p; Some (a + q * real i) })
       (zip hist [0..<length hist]) (Some 0)"

definition histVar :: "number list \<Rightarrow> number \<Rightarrow> number" where
  "histVar hist mean_h =
     fold (\<lambda>(p, i) s. do { a \<leftarrow> s; q \<leftarrow> p; m \<leftarrow> mean_h;
                          Some (a + q * (real i - m) * (real i - m)) })
       (zip hist [0..<length hist]) (Some 0)"

text \<open>
  The comparison \<^verbatim>\<open>p > 0\<close> is false on NaN, so the entropy skips such a bin and is
  always a number.
\<close>

definition histEntropy :: "number list \<Rightarrow> real" where
  "histEntropy hist =
     - fold (\<lambda>p s. case p of Some q \<Rightarrow> if 0 < q then s + q * log 2 q else s | None \<Rightarrow> s)
         hist 0"

section \<open>Sobel edge magnitude\<close>

definition gxKernel :: "real list" where
  "gxKernel = [-1, 0, 1, -2, 0, 2, -1, 0, 1]"

definition gyKernel :: "real list" where
  "gyKernel = [-1, -2, -1, 0, 0, 0, 1, 2, 1]"

definition clamp :: "int \<Rightarrow> int \<Rightarrow> int \<Rightarrow> int" where
  "clamp x lo hi = max lo (min hi x)"

definition hypot :: "real \<Rightarrow> real \<Rightarrow> real" where
  "hypot a b = sqrt (a * a + b * b)"

text \<open>
  The body of the two kernel loops, on the triple of \<^verbatim>\<open>gx\<close>, \<^verbatim>\<open>gy\<close> and
  \<^verbatim>\<open>idx\<close>.
\<close>

definition sobel_step ::
  "u8 list \<Rightarrow> int \<Rightarrow> int \<Rightarrow> int \<Rightarrow> int \<Rightarrow> int \<Rightarrow> int
     \<Rightarrow> number \<times> number \<times> nat \<Rightarrow> number \<times> number \<times> nat" where
  "sobel_step gray width height x y ky kx = (\<lambda>(gx, gy, idx).
     let px = clamp (x + kx) 0 (width - 1);
         py = clamp (y + ky) 0 (height - 1);
         i = (py * width + px) * 4;
         v = sample gray i
     in (do { a \<leftarrow> gx; b \<leftarrow> v; Some (a + gxKernel ! idx * b) },
         do { a \<leftarrow> gy; b \<leftarrow> v; Some (a + gyKernel ! idx * b) },
         idx + 1))"

definition sobel_at :: "u8 list \<Rightarrow> int \<Rightarrow> int \<Rightarrow> int \<Rightarrow> int \<Rightarrow> number" where
  "sobel_at gray width height x y =
     (let (gx, gy, idx) =
        fold (\<lambda>ky. fold (\<lambda>kx. sobel_step gray width height x y ky kx) [-1, 0, 1])
          [-1, 0, 1] (Some 0, Some 0, 0)
      in do { a \<leftarrow> gx; b \<leftarrow> gy; Some (hypot a b) })"

text \<open>
  The magnitude array starts as zeros; the two pixel loops run over the rows
  \<open>1 \<le> y < height - 1\<close> and the columns \<open>1 \<le> x < width - 1\<close>.
\<close>

definition computeSobelEdges :: "u8 list \<Rightarrow> nat \<Rightarrow> nat \<Rightarrow> number list" where
  "computeSobelEdges gray width height =
     fold (\<lambda>y. fold (\<lambda>x magnitude.
              magnitude[y * width + x :=
                sobel_at gray (int width) (int height) (int x) (int y)])
            [1..<width - 1])
       [1..<height - 1] (replicate (width * height) (Some 0))"

text \<open>
  The same function with the neighbour read at \<open>(x + kx, y + ky)\<close> itself, for the
  comparison with the clamped read.
\<close>

definition sobel_step_unclamped ::
  "u8 list \<Rightarrow> int \<Rightarrow> int \<Rightarrow> int \<Rightarrow> int \<Rightarrow> int \<Rightarrow> int
     \<Rightarrow> number \<times> number \<times> nat \<Rightarrow> number \<times> number \<times> nat" where
  "sobel_step_unclamped gray width height x y ky kx = (\<lambda>(gx, gy, idx).
     let px = x + kx;
         py = y + ky;
         i = (py * width + px) * 4;
         v = sample gray i
     in (do { a \<leftarrow> gx; b \<leftarrow> v; Some (a + gxKernel ! idx * b) },
         do { a \<leftarrow> gy; b \<leftarrow> v; Some (a + gyKernel ! idx * b) },
         idx + 1))"

definition sobel_at_unclamped :: "u8 list \<Rightarrow> int \<Rightarrow> int \<Rightarrow> int \<Rightarrow> int \<Rightarrow> number" where
  "sobel_at_unclamped gray width height x y =
     (let (gx, gy, idx) =
        fold (\<lambda>ky. fold (\<lambda>kx. sobel_step_unclamped gray width height x y ky kx) [-1, 0, 1])
          [-1, 0, 1] (Some 0, Some 0, 0)
      in do { a \<leftarrow> gx; b \<leftarrow> gy; Some (hypot a b) })"

definition computeSobelEdges_unclamped :: "u8 list \<Rightarrow> nat \<Rightarrow> nat \<Rightarrow> number list" where
  "computeSobelEdges_unclamped gray width height =
     fold (\<lambda>y. fold (\<lambda>x magnitude.
              magnitude[y * width + x :=
                sobel_at_unclamped gray (int width) (int height) (int x) (int y)])
            [1..<width - 1])
       [1..<height - 1] (replicate (width * height) (Some 0))"

text \<open>
  The pixel that the clamped read at \<open>(a, b)\<close> returns, and the two 3x3 Sobel responses
  at \<open>(x, y)\<close> written out, for the statement of the edge magnitude.
\<close>

definition pixel_clamped :: "u8 list \<Rightarrow> nat \<Rightarrow> nat \<Rightarrow> int \<Rightarrow> int \<Rightarrow> real" where
  "pixel_clamped gray width height a b =
     real (unat (gray ! nat ((clamp b 0 (int height - 1) * int width
                              + clamp a 0 (int width - 1)) * 4)))"

definition sobel_gx :: "u8 list \<Rightarrow> nat \<Rightarrow> nat \<Rightarrow> int \<Rightarrow> int \<Rightarrow> real" where
  "sobel_gx gray width height x y =
     (let P = pixel_clamped gray width height in
        - P (x - 1) (y - 1) + P (x + 1) (y - 1)
        - 2 * P (x - 1) y + 2 * P (x + 1) y
        - P (x - 1) (y + 1) + P (x + 1) (y + 1))"

definition sobel_gy :: "u8 list \<Rightarrow> nat \<Rightarrow> nat \<Rightarrow> int \<Rightarrow> int \<Rightarrow> real" where
  "sobel_gy gray width height x y =
     (let P = pixel_clamped gray width height in
        - P (x - 1) (y - 1) - 2 * P x (y - 1) - P (x + 1) (y - 1)
        + P (x - 1) (y + 1) + 2 * P x (y + 1) + P (x + 1) (y + 1))"

section \<open>Statistics of a field\<close>

text \<open>
  \<^verbatim>\<open>mean\<close>, \<^verbatim>\<open>std\<close> and \<^verbatim>\<open>percentiles\<close> on an array of numbers none of which
  is NaN. The optional argument \<^verbatim>\<open>mu\<close> of \<^verbatim>\<open>std\<close> is an option of a number.
\<close>

definition mean :: "real list \<Rightarrow> number" where
  "mean values =
     (if values = [] then None
      else Some (fold (\<lambda>v s. s + v) values 0 / real (length values)))"

definition std :: "real list \<Rightarrow> number option \<Rightarrow> number" where
  "std values mu =
     (let m = (case mu of None \<Rightarrow> mean values | Some c \<Rightarrow> c);
          s2 = fold (\<lambda>v s. do { a \<leftarrow> s; c \<leftarrow> m; Some (a + (v - c) * (v - c)) })
                 values (Some 0)
      in do { a \<leftarrow> s2; Some (sqrt (a / real (max 1 (length values - 1)))) })"

text \<open>
  Sorting with the comparator \<^verbatim>\<open>(a, b) => a - b\<close> is ascending order. On an empty
  array the index is \<open>-1\<close> and the read is \<^verbatim>\<open>undefined\<close>.
\<close>

definition percentiles :: "real list \<Rightarrow> real list \<Rightarrow> number list" where
  "percentiles values ps =
     (let arr = sort values; n = int (length arr)
      in map (\<lambda>p.
           let idx = min (n - 1) (max 0 (js_round (p / 100 * real_of_int (n - 1))))
           in if 0 \<le> idx \<and> idx < n then Some (arr ! nat idx) else None) ps)"

section \<open>Texture energy\<close>

definition computeTextureEnergy :: "u8 list \<Rightarrow> nat \<Rightarrow> nat \<Rightarrow> number" where
  "computeTextureEnergy gray width height =
     (let energy =
        fold (\<lambda>y. fold (\<lambda>x energy.
                let i = (int y * int width + int x) * 4 in
                do { e \<leftarrow> energy;
                     a \<leftarrow> sample gray i;
                     b \<leftarrow> sample gray (i + 4);
                     c \<leftarrow> sample gray (i + int width * 4);
                     Some (e + (\<bar>a - b\<bar> + \<bar>a - c\<bar>)) })
              [0..<width - 1])
          [0..<height - 1] (Some 0)
      in do { e \<leftarrow> energy;
              if width * height = 0 then None else Some (e / real (width * height)) })"

section \<open>The linear classifier and the analysis\<close>

datatype modality = CT | MRI

record AnalysisResult =
  modality :: modality
  confidence :: number
  features :: "(string \<times> number) list"

text \<open>
  The constructor \<^verbatim>\<open>new ImageData(norm, size, size)\<close> throws unless the buffer has
  exactly \<open>4 * size * size\<close> bytes: an \<^verbatim>\<open>InvalidStateError\<close> when its length is zero
  or not a multiple of four, an \<^verbatim>\<open>IndexSizeError\<close> when the pixels do not make
  \<open>size\<close> rows of \<open>size\<close>.
\<close>

datatype error = InvalidStateError | IndexSizeError

definition size_px :: nat where
  "size_px = 256"

definition logistic :: "real \<Rightarrow> real" where
  "logistic x = 1 / (1 + exp (- x))"

definition weights :: "(string \<times> real) list" where
  "weights =
     [(''histMean'', -0.01), (''histVar'', -0.002), (''histEntropy'', 0.8),
      (''edgeMean'', -0.015), (''edgeStd'', -0.02), (''edgeP50'', -0.001),
      (''edgeP90'', -0.0008), (''edgeP99'', -0.0005), (''textureE'', -0.004)]"

definition bias :: real where
  "bias = -1.0"

text \<open>
  The loop over \<^verbatim>\<open>Object.keys(features)\<close>, in the order the keys were written; a key
  without a weight would read \<^verbatim>\<open>undefined\<close>.
\<close>

definition score :: "(string \<times> number) list \<Rightarrow> number" where
  "score fs =
     fold (\<lambda>(k, v) s. do { a \<leftarrow> s; x \<leftarrow> v; w \<leftarrow> map_of weights k; Some (a + x * w) })
       fs (Some bias)"

text \<open>
  The features of a normalised buffer. The edge statistics are those of the magnitude
  field; were a magnitude NaN (a buffer shorter than the grid, which the size check of
  the analysis excludes), the mean and the deviation would be NaN and the sorted order
  is left open by the language, so the model gives NaN for the percentiles as well.
\<close>

definition extract_features :: "u8 list \<Rightarrow> nat \<Rightarrow> (string \<times> number) list" where
  "extract_features normd sz =
     (let hist = computeHistogram normd;
          hMean = histMean hist;
          hVar = histVar hist hMean;
          hEntropy = histEntropy hist;
          edges = computeSobelEdges normd sz sz;
          (edgeMean, edgeStd, ps) =
            (case those edges of
               Some vs \<Rightarrow> (mean vs, std vs (Some (mean vs)), percentiles vs [50, 90, 99])
             | None \<Rightarrow> (None, None, [None, None, None]));
          textureE = computeTextureEnergy normd sz sz
      in [(''histMean'', hMean), (''histVar'', hVar), (''histEntropy'', Some hEntropy),
          (''edgeMean'', edgeMean), (''edgeStd'', edgeStd), (''edgeP50'', ps ! 0),
          (''edgeP90'', ps ! 1), (''edgeP99'', ps ! 2), (''textureE'', textureE)])"

text \<open>
  The comparison \<^verbatim>\<open>probMRI > 0.5\<close> is false on NaN.
\<close>

definition classify :: "(string \<times> number) list \<Rightarrow> AnalysisResult" where
  "classify fs =
     (let probMRI = map_option logistic (score fs);
          label = (case probMRI of Some p \<Rightarrow> if 0.5 < p then MRI else CT | None \<Rightarrow> CT);
          conf = (case label of MRI \<Rightarrow> probMRI | CT \<Rightarrow> map_option (\<lambda>p. 1 - p) probMRI)
      in \<lparr>modality = label, confidence = conf, features = fs\<rparr>)"

text \<open>
  \<^verbatim>\<open>analyzeCtVsMri\<close>, from the bytes that \<^verbatim>\<open>getImageData\<close> returns for the canvas
  the image was drawn on. Acquiring the canvas context, drawing and resampling the image
  are the browser's and precede the model.
\<close>

definition preprocess :: "u8 list \<Rightarrow> u8 list" where
  "preprocess data = normalizeIntensity (toGrayscale data)"

definition analyzeCtVsMri :: "u8 list \<Rightarrow> error + AnalysisResult" where
  "analyzeCtVsMri data =
     (let normd = preprocess data; n = length normd in
      if n = 0 \<or> n mod 4 \<noteq> 0 then Inl InvalidStateError
      else if (n div 4) mod size_px = 0 \<and> (n div 4) div size_px = size_px
        then Inr (classify (extract_features normd size_px))
      else Inl IndexSizeError)"

section \<open>The local-variance heat map\<close>

text \<open>
  \<^verbatim>\<open>drawGradCAMLikeHeatmap\<close>, from the bytes of the source canvas. The variance and
  the normalised value are computed exactly; the program keeps both in
  \<^verbatim>\<open>Float32Array\<close>s, whose rounding can move a colour byte by one where the
  normalised value is neither 0 nor 1.
\<close>

definition window :: int where
  "window = 5"

definition radius :: int where
  "radius = window div 2"

text \<open>The copy of the red channel into the three colour cells; the alpha stays 0.\<close>

fun copy_red :: "u8 list \<Rightarrow> u8 list" where
  "copy_red (r # g # b # a # rest) = r # r # r # 0 # copy_red rest"
| "copy_red [] = []"
| "copy_red (r # rest) = replicate (Suc (length rest)) r"

text \<open>
  The body of the two window loops, on the triple of \<^verbatim>\<open>sum\<close>, \<^verbatim>\<open>sum2\<close> and
  \<^verbatim>\<open>count\<close>.
\<close>

definition window_step ::
  "u8 list \<Rightarrow> int \<Rightarrow> int \<Rightarrow> int \<Rightarrow> int \<Rightarrow> int \<Rightarrow> int
     \<Rightarrow> number \<times> number \<times> nat \<Rightarrow> number \<times> number \<times> nat" where
  "window_step gray width height x y dy dx = (\<lambda>(sm, sm2, count).
     let xx = min (width - 1) (max 0 (x + dx));
         yy = min (height - 1) (max 0 (y + dy));
         v = sample gray ((yy * width + xx) * 4)
     in (do { a \<leftarrow> sm; b \<leftarrow> v; Some (a + b) },
         do { a \<leftarrow> sm2; b \<leftarrow> v; Some (a + b * b) },
         count + 1))"

definition local_variance :: "u8 list \<Rightarrow> int \<Rightarrow> int \<Rightarrow> int \<Rightarrow> int \<Rightarrow> number" where
  "local_variance gray width height x y =
     (let (sm, sm2, count) =
        fold (\<lambda>dy. fold (\<lambda>dx. window_step gray width height x y dy dx) [- radius..radius])
          [- radius..radius] (Some 0, Some 0, 0)
      in do { a \<leftarrow> sm; b \<leftarrow> sm2;
              let mu = a / real count in Some (b / real count - mu * mu) })"

definition variance_field :: "u8 list \<Rightarrow> nat \<Rightarrow> nat \<Rightarrow> number list" where
  "variance_field gray width height =
     fold (\<lambda>y. fold (\<lambda>x variance.
              variance[y * width + x :=
                local_variance gray (int width) (int height) (int x) (int y)])
            [0..<width])
       [0..<height] (replicate (width * height) (Some 0))"

text \<open>
  The scan for the least and the greatest variance starts from \<^verbatim>\<open>Infinity\<close> and
  \<^verbatim>\<open>-Infinity\<close>, the state \<open>None\<close>; the first number replaces both, and a NaN
  fails both comparisons.
\<close>

fun minmax_scan :: "number list \<Rightarrow> (real \<times> real) option \<Rightarrow> (real \<times> real) option" where
  "minmax_scan [] s = s"
| "minmax_scan (None # vs) s = minmax_scan vs s"
| "minmax_scan (Some v # vs) None = minmax_scan vs (Some (v, v))"
| "minmax_scan (Some v # vs) (Some (mn, mx)) =
     minmax_scan vs (Some (if v < mn then v else mn, if mx < v then v else mx))"

definition normalize_field :: "number list \<Rightarrow> number list" where
  "normalize_field variance =
     (let s = minmax_scan variance None;
          rng = (case s of None \<Rightarrow> 0.000001 | Some (mn, mx) \<Rightarrow> max 0.000001 (mx - mn))
      in map (\<lambda>v. do { x \<leftarrow> v; (mn, mx) \<leftarrow> s; Some ((x - mn) / rng) }) variance)"

text \<open>
  \<^verbatim>\<open>Math.pow\<close> with an exponent that is positive and not an integer: NaN on a
  negative base.
\<close>

definition js_pow :: "real \<Rightarrow> real \<Rightarrow> number" where
  "js_pow x a = (if x < 0 then None else Some (x powr a))"

text \<open>
  One colour channel: \<^verbatim>\<open>Math.min(255, Math.max(0, Math.round(c)))\<close> stored into
  the byte array. A NaN stays NaN through the three functions and is stored as 0.
\<close>

definition clamp255 :: "int \<Rightarrow> int" where
  "clamp255 n = min 255 (max 0 n)"

definition channel :: "number \<Rightarrow> u8" where
  "channel c = (case c of None \<Rightarrow> 0 | Some x \<Rightarrow> toUint8Clamp (of_int (clamp255 (js_round x))))"

definition colormap :: "number \<Rightarrow> u8 list" where
  "colormap v =
     [channel (do { x \<leftarrow> v; p \<leftarrow> js_pow x 0.35; Some (255 * p) }),
      channel (do { x \<leftarrow> v; p \<leftarrow> js_pow x 1.2; Some (255 * p * (1 - x)) }),
      channel (do { x \<leftarrow> v; Some (255 * (1 - x)) }),
      180]"

definition drawGradCAMLikeHeatmap :: "u8 list \<Rightarrow> nat \<Rightarrow> nat \<Rightarrow> u8 list" where
  "drawGradCAMLikeHeatmap data width height =
     (let gray = copy_red data;
          variance = variance_field gray width height;
          normd = normalize_field variance
      in concat (map (\<lambda>y. concat (map (\<lambda>x. colormap (normd ! (y * width + x))) [0..<width]))
           [0..<height]))"


section \<open>Auxiliary notions for the statements and proofs\<close>

text \<open>The bins after the counting loop, before the division.\<close>

definition bin_counts :: "u8 list \<Rightarrow> nat list" where
  "bin_counts data = fst (tally data (replicate 256 0, 0))"

text \<open>The contribution of one bin to the entropy.\<close>

definition entropy_term :: "real \<Rightarrow> real" where
  "entropy_term p = (if 0 < p then - (p * log 2 p) else 0)"

text \<open>The index that \<open>percentiles\<close> reads in the sorted array of \<open>n\<close> values.\<close>

definition rank_index :: "int \<Rightarrow> real \<Rightarrow> int" where
  "rank_index n p = min (n - 1) (max 0 (js_round (p / 100 * real_of_int (n - 1))))"

text \<open>
  A 3x3 picture for the examples: two black rows above a row of luma 10.
\<close>

definition example_grid :: "u8 list" where
  "example_grid =
     [0, 0, 0, 255,  0, 0, 0, 255,  0, 0, 0, 255,
      0, 0, 0, 255,  0, 0, 0, 255,  0, 0, 0, 255,
      10, 10, 10, 255,  10, 10, 10, 255,  10, 10, 10, 255]"

text \<open>A buffer of \<open>n\<close> pixels of one colour.\<close>

definition uniform_image :: "nat \<Rightarrow> u8 \<Rightarrow> u8 \<Rightarrow> u8 \<Rightarrow> u8 \<Rightarrow> u8 list" where
  "uniform_image n r g b a = concat (replicate n [r, g, b, a])"

text \<open>The 256x256 picture of the uniform gray 128, fully opaque.\<close>

definition gray128 :: "u8 list" where
  "gray128 = uniform_image (size_px * size_px) 128 128 128 255"

text \<open>A 3x1 picture for the examples: two black pixels and one of luma 10.\<close>

definition example_row :: "u8 list" where
  "example_row = [0, 0, 0, 255,  0, 0, 0, 255,  10, 10, 10, 255]"

text \<open>The four bytes of pixel \<open>k\<close> of a buffer.\<close>

definition pixel_at :: "u8 list \<Rightarrow> nat \<Rightarrow> u8 list" where
  "pixel_at buf k = take 4 (drop (4 * k) buf)"

section \<open>Bytes and rounding\<close>

lemma nth_quad_Suc: "(a # b # c # d # rest) ! (4 * Suc j + i) = rest ! (4 * j + i)"
  by (simp add: add.commute)

lemma unat_u8_le: "unat (v :: u8) \<le> 255"
  using unsigned_less [of v, where 'a = nat] by simp

lemma uint_u8_range: "0 \<le> uint (v :: u8) \<and> uint v \<le> 255"
  using uint_nonnegative [of v] uint_bounded [of v] by simp

lemma u8_le_255: "(v :: u8) \<le> 255"
  using unat_u8_le [of v] by (simp add: word_le_nat_alt)

lemma round_half_even_of_int [simp]: "round_half_even (of_int n) = n"
  by (simp add: round_half_even_def)

lemma toUint8Clamp_of_int:
  assumes "0 \<le> n" and "n \<le> 255"
  shows "int (unat (toUint8Clamp (of_int n))) = n"
proof -
  have "uint (word_of_int n :: u8) = n"
    using assms by (simp add: uint_word_of_int)
  then show ?thesis
    using assms by (auto simp: toUint8Clamp_def)
qed

lemma toUint8Clamp_0 [simp]: "toUint8Clamp 0 = 0"
  by (simp add: toUint8Clamp_def)

lemma toUint8Clamp_255 [simp]: "toUint8Clamp 255 = 255"
  by (simp add: toUint8Clamp_def)

section \<open>Rounding to double precision\<close>

lemma round_half_even_close: "\<bar>real_of_int (round_half_even y) - y\<bar> \<le> 1 / 2"
  unfolding round_half_even_def Let_def by (auto; linarith)

lemma fl64_binade:
  assumes "2 powr real_of_int e \<le> \<bar>x\<bar>" and "\<bar>x\<bar> < 2 powr real_of_int (e + 1)"
  shows "fl64 x = real_of_int (round_half_even (x / 2 powr (real_of_int e - 52)))
                    * 2 powr (real_of_int e - 52)"
proof -
  have pos: "0 < \<bar>x\<bar>" using assms(1) by (smt (verit) powr_gt_zero)
  then have "\<lfloor>log 2 \<bar>x\<bar>\<rfloor> = e"
    using assms by (simp add: floor_log_eq_powr_iff)
  then show ?thesis using pos by (simp add: fl64_def Let_def)
qed

lemma fl64_up:
  assumes "k \<le> 52" and "2 ^ k \<le> x" and "x < 2 * 2 ^ k"
  shows "fl64 x = real_of_int (round_half_even (x * 2 ^ (52 - k))) / 2 ^ (52 - k)"
proof -
  have p: "(2 :: real) powr real_of_int (int k) = 2 ^ k"
    by (simp add: powr_realpow)
  have p1: "(2 :: real) powr real_of_int (int k + 1) = 2 * 2 ^ k"
    using powr_realpow [of "2 :: real" "Suc k"] by (simp add: add.commute)
  have "real_of_int (int k) - 52 = - real (52 - k)" using assms(1) by simp
  then have q: "(2 :: real) powr (real_of_int (int k) - 52) = 1 / 2 ^ (52 - k)"
    by (simp only: powr_minus powr_realpow zero_less_numeral) (simp add: field_simps)
  have x: "\<bar>x\<bar> = x" using assms(2) by (smt (verit) zero_less_power)
  show ?thesis
    using fl64_binade [of "int k" x] assms(2,3) unfolding p p1 q x by simp
qed

lemma fl64_down:
  assumes "1 / 2 ^ k \<le> x" and "x < 2 / 2 ^ k"
  shows "fl64 x = real_of_int (round_half_even (x * 2 ^ (52 + k))) / 2 ^ (52 + k)"
proof -
  have p: "(2 :: real) powr real_of_int (- int k) = 1 / 2 ^ k"
    by (simp add: powr_minus powr_realpow field_simps)
  have "real_of_int (- int k + 1) = 1 + (- real k)" by simp
  then have p1: "(2 :: real) powr real_of_int (- int k + 1) = 2 / 2 ^ k"
    by (simp only: powr_add powr_minus powr_realpow zero_less_numeral powr_one) (simp add: field_simps)
  have "real_of_int (- int k) - 52 = - real (52 + k)" by simp
  then have q: "(2 :: real) powr (real_of_int (- int k) - 52) = 1 / 2 ^ (52 + k)"
    by (simp only: powr_minus powr_realpow zero_less_numeral) (simp add: field_simps)
  have "0 < 1 / (2 :: real) ^ k" by simp
  then have x: "\<bar>x\<bar> = x" using assms(1) by linarith
  show ?thesis
    using fl64_binade [of "- int k" x] assms unfolding p p1 q x by simp
qed

lemma fl64_error: "\<bar>fl64 x - x\<bar> \<le> \<bar>x\<bar> / 2 ^ 53"
proof (cases "x = 0")
  case True
  then show ?thesis by (simp add: fl64_def)
next
  case False
  define e where "e = \<lfloor>log 2 \<bar>x\<bar>\<rfloor>"
  define q where "q = 2 powr (real_of_int e - 52)"
  have q: "0 < q" by (simp add: q_def)
  have pos: "0 < \<bar>x\<bar>" using False by simp
  have "2 powr real_of_int e \<le> \<bar>x\<bar>"
    using floor_log_eq_powr_iff [of "\<bar>x\<bar>" 2 e] pos by (simp add: e_def)
  moreover have "2 powr real_of_int e = q * 2 ^ 52"
    unfolding q_def by (simp add: powr_diff)
  ultimately have low: "q * 2 ^ 52 \<le> \<bar>x\<bar>" by simp
  have fl: "fl64 x = real_of_int (round_half_even (x / q)) * q"
    using False by (simp add: fl64_def Let_def e_def q_def)
  have "fl64 x - x = (real_of_int (round_half_even (x / q)) - x / q) * q"
    unfolding fl using q by (simp add: field_simps)
  then have "\<bar>fl64 x - x\<bar> = \<bar>real_of_int (round_half_even (x / q)) - x / q\<bar> * q"
    using q by (simp add: abs_mult)
  also have "\<dots> \<le> 1 / 2 * q"
    using round_half_even_close [of "x / q"] q by (intro mult_right_mono) simp_all
  also have "\<dots> = q * 2 ^ 52 / 2 ^ 53" by simp
  also have "\<dots> \<le> \<bar>x\<bar> / 2 ^ 53" using low by (intro divide_right_mono) simp_all
  finally show ?thesis .
qed

lemma c_2126: "fl64 0.2126 = 1914930561557935 / 9007199254740992"
  by (subst fl64_down [of 3]) (simp_all add: round_half_even_def)

lemma c_7152: "fl64 0.7152 = 6441948906990757 / 9007199254740992"
  by (subst fl64_down [of 1]) (simp_all add: round_half_even_def)

lemma c_0722: "fl64 0.0722 = 5202558289538397 / 72057594037927936"
  by (subst fl64_down [of 4]) (simp_all add: round_half_even_def)


lemma fl64_abs_error:
  assumes "\<bar>x\<bar> \<le> 256"
  shows "\<bar>fl64 x - x\<bar> \<le> 1 / 2 ^ 45"
proof -
  have "\<bar>x\<bar> / 2 ^ 53 \<le> 256 / 2 ^ 53" using assms by (intro divide_right_mono) simp_all
  with fl64_error [of x] show ?thesis by simp
qed

section \<open>Grayscale conversion\<close>

text \<open>
  The double sum stays within \<open>770 / 2 ^ 45\<close> of the exact weighted sum: each of the
  three literals, three products and two sums is at most 256 in absolute value and so
  rounded with an error of at most \<open>1 / 2 ^ 45\<close>.
\<close>

lemma luma_sum_close:
  fixes x y z :: real
  assumes "0 \<le> x" "x \<le> 255" "0 \<le> y" "y \<le> 255" "0 \<le> z" "z \<le> 255"
  shows "\<bar>fl64 (fl64 (fl64 (fl64 (2126 / 10000) * x) + fl64 (fl64 (7152 / 10000) * y))
               + fl64 (fl64 (722 / 10000) * z))
         - (2126 / 10000 * x + 7152 / 10000 * y + 722 / 10000 * z)\<bar> \<le> 770 / 2 ^ 45"
proof -
  define eps :: real where "eps = 1 / 2 ^ 45"
  have eps: "0 < eps" "eps \<le> 1 / 10000000000" by (simp_all add: eps_def)
  define c1 c2 c3 where "c1 = fl64 (2126 / 10000)" and "c2 = fl64 (7152 / 10000)"
    and "c3 = fl64 (722 / 10000)"
  have c: "\<bar>c1 - 2126 / 10000\<bar> \<le> eps" "\<bar>c2 - 7152 / 10000\<bar> \<le> eps"
    "\<bar>c3 - 722 / 10000\<bar> \<le> eps"
    unfolding c1_def c2_def c3_def eps_def by (rule fl64_abs_error, simp)+
  have prod: "\<bar>c * v - a * v\<bar> \<le> 255 * eps"
    if "\<bar>c - a\<bar> \<le> eps" "0 \<le> v" "v \<le> 255" for c a v :: real
  proof -
    have "\<bar>c * v - a * v\<bar> = \<bar>c - a\<bar> * v"
      using that(2) by (simp add: abs_mult left_diff_distrib [symmetric])
    also have "\<dots> \<le> eps * 255"
      using that eps(1) by (intro mult_mono) simp_all
    finally show ?thesis by simp
  qed
  have ax: "0 \<le> 2126 / 10000 * x" "2126 / 10000 * x \<le> 2126 / 10000 * 255"
    and ay: "0 \<le> 7152 / 10000 * y" "7152 / 10000 * y \<le> 7152 / 10000 * 255"
    and az: "0 \<le> 722 / 10000 * z" "722 / 10000 * z \<le> 722 / 10000 * 255"
    using assms by simp_all
  define p1 p2 p3 where "p1 = fl64 (c1 * x)" and "p2 = fl64 (c2 * y)" and "p3 = fl64 (c3 * z)"
  note e1 = prod [OF c(1) assms(1,2)] and e2 = prod [OF c(2) assms(3,4)]
    and e3 = prod [OF c(3) assms(5,6)]
  have "\<bar>c1 * x\<bar> \<le> 256" using e1 ax eps by linarith
  from fl64_abs_error [OF this] have p1: "\<bar>p1 - 2126 / 10000 * x\<bar> \<le> 256 * eps"
    unfolding p1_def eps_def [symmetric] using e1 by linarith
  have "\<bar>c2 * y\<bar> \<le> 256" using e2 ay eps by linarith
  from fl64_abs_error [OF this] have p2: "\<bar>p2 - 7152 / 10000 * y\<bar> \<le> 256 * eps"
    unfolding p2_def eps_def [symmetric] using e2 by linarith
  have "\<bar>c3 * z\<bar> \<le> 256" using e3 az eps by linarith
  from fl64_abs_error [OF this] have p3: "\<bar>p3 - 722 / 10000 * z\<bar> \<le> 256 * eps"
    unfolding p3_def eps_def [symmetric] using e3 by linarith
  define s1 where "s1 = fl64 (p1 + p2)"
  have "\<bar>p1 + p2\<bar> \<le> 256" using p1 p2 ax ay eps by linarith
  from fl64_abs_error [OF this]
  have s1: "\<bar>s1 - (2126 / 10000 * x + 7152 / 10000 * y)\<bar> \<le> 513 * eps"
    unfolding s1_def eps_def [symmetric] using p1 p2 by linarith
  have "\<bar>s1 + p3\<bar> \<le> 256" using s1 p3 ax ay az eps by linarith
  from fl64_abs_error [OF this]
  have "\<bar>fl64 (s1 + p3) - (2126 / 10000 * x + 7152 / 10000 * y + 722 / 10000 * z)\<bar>
      \<le> 770 * eps"
    unfolding eps_def [symmetric] using s1 p3 by linarith
  then show ?thesis
    unfolding s1_def p1_def p2_def p3_def c1_def c2_def c3_def eps_def by simp
qed

lemma luma_close:
  "\<bar>real_of_int (luma r g b)
      - (2126 / 10000 * real (unat r) + 7152 / 10000 * real (unat g) + 722 / 10000 * real (unat b))\<bar>
     \<le> 1 / 2 + 1 / 10000000000"
proof -
  define x y z where "x = real (unat r)" and "y = real (unat g)" and "z = real (unat b)"
  have bounds: "0 \<le> x" "x \<le> 255" "0 \<le> y" "y \<le> 255" "0 \<le> z" "z \<le> 255"
    using unat_u8_le [of r] unat_u8_le [of g] unat_u8_le [of b]
    unfolding x_def y_def z_def by linarith+
  define s where "s = fl64 (fl64 (fl64 (fl64 (2126 / 10000) * x) + fl64 (fl64 (7152 / 10000) * y))
               + fl64 (fl64 (722 / 10000) * z))"
  have "(770 :: real) / 2 ^ 45 \<le> 1 / 10000000000" by simp
  with luma_sum_close [OF bounds]
  have close: "\<bar>s - (2126 / 10000 * x + 7152 / 10000 * y + 722 / 10000 * z)\<bar> \<le> 1 / 10000000000"
    unfolding s_def by linarith
  have "luma r g b = js_round s"
    unfolding luma_def s_def x_def y_def z_def by simp
  moreover have "\<bar>real_of_int (js_round s) - s\<bar> \<le> 1 / 2"
    unfolding js_round_def by linarith
  ultimately show ?thesis
    unfolding x_def [symmetric] y_def [symmetric] z_def [symmetric] using close by linarith
qed

lemma luma_range: "0 \<le> luma r g b \<and> luma r g b \<le> 255"
proof -
  define x y z where "x = real (unat r)" and "y = real (unat g)" and "z = real (unat b)"
  have bounds: "0 \<le> x" "x \<le> 255" "0 \<le> y" "y \<le> 255" "0 \<le> z" "z \<le> 255"
    using unat_u8_le [of r] unat_u8_le [of g] unat_u8_le [of b]
    unfolding x_def y_def z_def by linarith+
  have "0 \<le> 2126 / 10000 * x + 7152 / 10000 * y + 722 / 10000 * z"
    using bounds by simp
  moreover have "2126 / 10000 * x + 7152 / 10000 * y + 722 / 10000 * z \<le> 255"
    using bounds by linarith
  ultimately have "- 1 < real_of_int (luma r g b) \<and> real_of_int (luma r g b) < 256"
    using luma_close [of r g b] unfolding x_def y_def z_def by linarith
  then show ?thesis by linarith
qed

text \<open>
  The constants and some sums evaluated. The exact sum for the colour (0, 14, 76) is
  15.5 and the one for (255, 241, 179) is 239.5; the double sums are just below and
  round to 15 and 239.
\<close>

lemma luma_missed_tie: "luma 0 14 76 = 15"
proof -
  have p1: "fl64 (1914930561557935 / 9007199254740992 * 0) = 0"
    by (simp add: fl64_def)
  have p2: "fl64 (6441948906990757 / 9007199254740992 * 14) = 352294080851057 / 35184372088832"
    by (subst fl64_up [of 3]) (simp_all add: round_half_even_def)
  have p3: "fl64 (5202558289538397 / 72057594037927936 * 76) = 3089018984413423 / 562949953421312"
    by (subst fl64_up [of 2]) (simp_all add: round_half_even_def)
  have s1: "fl64 (0 + 352294080851057 / 35184372088832) = 352294080851057 / 35184372088832"
    by (subst fl64_up [of 3]) (simp_all add: round_half_even_def)
  have s2: "fl64 (352294080851057 / 35184372088832 + 3089018984413423 / 562949953421312) = 8725724278030335 / 562949953421312"
    by (subst fl64_up [of 3]) (simp_all add: round_half_even_def)
  have "luma 0 14 76 =
      js_round (fl64 (fl64 (fl64 (1914930561557935 / 9007199254740992 * 0) + fl64 (6441948906990757 / 9007199254740992 * 14))
                       + fl64 (5202558289538397 / 72057594037927936 * 76)))"
    unfolding luma_def c_2126 c_7152 c_0722 by simp
  also have "\<dots> = 15"
    unfolding p1 p2 p3 s1 s2 by (simp add: js_round_def)
  finally show ?thesis .
qed

lemma luma_missed_tie_high: "luma 255 241 179 = 239"
proof -
  have p1: "fl64 (1914930561557935 / 9007199254740992 * 255) = 7629801456207397 / 140737488355328"
    by (subst fl64_up [of 5]) (simp_all add: round_half_even_def)
  have p2: "fl64 (6441948906990757 / 9007199254740992 * 241) = 6064490963221767 / 35184372088832"
    by (subst fl64_up [of 7]) (simp_all add: round_half_even_def)
  have p3: "fl64 (5202558289538397 / 72057594037927936 * 179) = 454715788001647 / 35184372088832"
    by (subst fl64_up [of 3]) (simp_all add: round_half_even_def)
  have s1: "fl64 (7629801456207397 / 140737488355328 + 6064490963221767 / 35184372088832) = 498246332954601 / 2199023255552"
    by (subst fl64_up [of 7]) (simp_all add: round_half_even_def)
  have s2: "fl64 (498246332954601 / 2199023255552 + 454715788001647 / 35184372088832) = 8426657115275263 / 35184372088832"
    by (subst fl64_up [of 7]) (simp_all add: round_half_even_def)
  have "luma 255 241 179 =
      js_round (fl64 (fl64 (fl64 (1914930561557935 / 9007199254740992 * 255) + fl64 (6441948906990757 / 9007199254740992 * 241))
                       + fl64 (5202558289538397 / 72057594037927936 * 179)))"
    unfolding luma_def c_2126 c_7152 c_0722 by simp
  also have "\<dots> = 239"
    unfolding p1 p2 p3 s1 s2 by (simp add: js_round_def)
  finally show ?thesis .
qed

lemma luma_128: "luma 128 128 128 = 128"
proof -
  have p1: "fl64 (1914930561557935 / 9007199254740992 * 128) = 1914930561557935 / 70368744177664"
    by (subst fl64_up [of 4]) (simp_all add: round_half_even_def)
  have p2: "fl64 (6441948906990757 / 9007199254740992 * 128) = 6441948906990757 / 70368744177664"
    by (subst fl64_up [of 6]) (simp_all add: round_half_even_def)
  have p3: "fl64 (5202558289538397 / 72057594037927936 * 128) = 5202558289538397 / 562949953421312"
    by (subst fl64_up [of 3]) (simp_all add: round_half_even_def)
  have s1: "fl64 (1914930561557935 / 70368744177664 + 6441948906990757 / 70368744177664) = 2089219867137173 / 17592186044416"
    by (subst fl64_up [of 6]) (simp_all add: round_half_even_def)
  have s2: "fl64 (2089219867137173 / 17592186044416 + 5202558289538397 / 562949953421312) = 128"
    by (subst fl64_up [of 6]) (simp_all add: round_half_even_def)
  have "luma 128 128 128 =
      js_round (fl64 (fl64 (fl64 (1914930561557935 / 9007199254740992 * 128) + fl64 (6441948906990757 / 9007199254740992 * 128))
                       + fl64 (5202558289538397 / 72057594037927936 * 128)))"
    unfolding luma_def c_2126 c_7152 c_0722 by simp
  also have "\<dots> = 128"
    unfolding p1 p2 p3 s1 s2 by (simp add: js_round_def)
  finally show ?thesis .
qed

lemma luma_1_2_3: "luma 1 2 3 = 2"
proof -
  have p1: "fl64 (1914930561557935 / 9007199254740992 * 1) = 1914930561557935 / 9007199254740992"
    by (subst fl64_down [of 3]) (simp_all add: round_half_even_def)
  have p2: "fl64 (6441948906990757 / 9007199254740992 * 2) = 6441948906990757 / 4503599627370496"
    by (subst fl64_up [of 0]) (simp_all add: round_half_even_def)
  have p3: "fl64 (5202558289538397 / 72057594037927936 * 3) = 1950959358576899 / 9007199254740992"
    by (subst fl64_down [of 3]) (simp_all add: round_half_even_def)
  have s1: "fl64 (1914930561557935 / 9007199254740992 + 6441948906990757 / 4503599627370496) = 1849853546942431 / 1125899906842624"
    by (subst fl64_up [of 0]) (simp_all add: round_half_even_def)
  have s2: "fl64 (1849853546942431 / 1125899906842624 + 1950959358576899 / 9007199254740992) = 4187446933529087 / 2251799813685248"
    by (subst fl64_up [of 0]) (simp_all add: round_half_even_def)
  have "luma 1 2 3 =
      js_round (fl64 (fl64 (fl64 (1914930561557935 / 9007199254740992 * 1) + fl64 (6441948906990757 / 9007199254740992 * 2))
                       + fl64 (5202558289538397 / 72057594037927936 * 3)))"
    unfolding luma_def c_2126 c_7152 c_0722 by simp
  also have "\<dots> = 2"
    unfolding p1 p2 p3 s1 s2 by (simp add: js_round_def)
  finally show ?thesis .
qed


lemma length_toGrayscale [simp]: "length (toGrayscale data) = length data"
  by (induction data rule: toGrayscale.induct) (simp_all add: Let_def)

lemma toGrayscale_nth:
  "4 * k + 3 < length data \<Longrightarrow>
     toGrayscale data ! (4 * k) =
       toUint8Clamp (of_int (luma (data ! (4 * k)) (data ! (4 * k + 1)) (data ! (4 * k + 2)))) \<and>
     toGrayscale data ! (4 * k + 1) = toGrayscale data ! (4 * k) \<and>
     toGrayscale data ! (4 * k + 2) = toGrayscale data ! (4 * k) \<and>
     toGrayscale data ! (4 * k + 3) = data ! (4 * k + 3)"
proof (induction data arbitrary: k rule: toGrayscale.induct)
  case (1 r g b a rest)
  show ?case
  proof (cases k)
    case 0
    then show ?thesis by (simp add: Let_def)
  next
    case (Suc j)
    with "1.prems" have "4 * j + 3 < length rest" by simp
    from "1.IH" [OF refl this] show ?thesis
      unfolding Suc toGrayscale.simps Let_def nth_quad_Suc
      using nth_quad_Suc [of _ _ _ _ _ j 0] by simp
  qed
qed simp_all

text \<open>
  C8. On a well-formed RGBA buffer, every pixel of the output of \<open>toGrayscale\<close> has
  R = G = B = round(0.2126 R + 0.7152 G + 0.0722 B) of the input pixel, the sum being
  the one the program computes in double precision, and the input's alpha. The byte is
  within \<open>1 / 2 + 1 / 10000000000\<close> of the exact weighted sum.
\<close>

theorem toGrayscale_pixels:
  assumes "length data = 4 * n" and "k < n"
  shows "int (unat (toGrayscale data ! (4 * k))) =
           js_round (fl64 (fl64 (fl64 (fl64 0.2126 * real (unat (data ! (4 * k))))
                                 + fl64 (fl64 0.7152 * real (unat (data ! (4 * k + 1)))))
                           + fl64 (fl64 0.0722 * real (unat (data ! (4 * k + 2))))))
       \<and> \<bar>real (unat (toGrayscale data ! (4 * k)))
            - (0.2126 * real (unat (data ! (4 * k))) + 0.7152 * real (unat (data ! (4 * k + 1)))
               + 0.0722 * real (unat (data ! (4 * k + 2))))\<bar> \<le> 1 / 2 + 1 / 10000000000
       \<and> toGrayscale data ! (4 * k + 1) = toGrayscale data ! (4 * k)
       \<and> toGrayscale data ! (4 * k + 2) = toGrayscale data ! (4 * k)
       \<and> toGrayscale data ! (4 * k + 3) = data ! (4 * k + 3)
       \<and> length (toGrayscale data) = length data"
proof -
  from assms have "4 * k + 3 < length data" by simp
  note nth = toGrayscale_nth [OF this]
  let ?y = "luma (data ! (4 * k)) (data ! (4 * k + 1)) (data ! (4 * k + 2))"
  have y: "int (unat (toGrayscale data ! (4 * k))) = ?y"
    using nth luma_range [of "data ! (4 * k)" "data ! (4 * k + 1)" "data ! (4 * k + 2)"]
    by (simp only: toUint8Clamp_of_int)
  then have "real (unat (toGrayscale data ! (4 * k))) = real_of_int ?y"
    by (metis of_int_of_nat_eq)
  then have close: "\<bar>real (unat (toGrayscale data ! (4 * k)))
            - (0.2126 * real (unat (data ! (4 * k))) + 0.7152 * real (unat (data ! (4 * k + 1)))
               + 0.0722 * real (unat (data ! (4 * k + 2))))\<bar> \<le> 1 / 2 + 1 / 10000000000"
    using luma_close [of "data ! (4 * k)" "data ! (4 * k + 1)" "data ! (4 * k + 2)"]
    by (simp only:) simp
  from y have "int (unat (toGrayscale data ! (4 * k))) =
           js_round (fl64 (fl64 (fl64 (fl64 0.2126 * real (unat (data ! (4 * k))))
                                 + fl64 (fl64 0.7152 * real (unat (data ! (4 * k + 1)))))
                           + fl64 (fl64 0.0722 * real (unat (data ! (4 * k + 2))))))"
    unfolding luma_def .
  with close nth show ?thesis by simp
qed

theorem toGrayscale_pixels_witness:
  "length [0, 14, 76, 255, 1, 2, 3, 7 :: u8] = 4 * 2 \<and> (0 :: nat) < 2
   \<and> int (unat (toGrayscale [0, 14, 76, 255, 1, 2, 3, 7] ! (4 * 0))) = luma 0 14 76
   \<and> luma 0 14 76 = 15
   \<and> toGrayscale [0, 14, 76, 255, 1, 2, 3, 7] ! (4 * 0 + 1)
       = toGrayscale [0, 14, 76, 255, 1, 2, 3, 7] ! (4 * 0)
   \<and> toGrayscale [0, 14, 76, 255, 1, 2, 3, 7] ! (4 * 0 + 2)
       = toGrayscale [0, 14, 76, 255, 1, 2, 3, 7] ! (4 * 0)
   \<and> toGrayscale [0, 14, 76, 255, 1, 2, 3, 7] ! (4 * 0 + 3) = 255"
proof -
  let ?d = "[0, 14, 76, 255, 1, 2, 3, 7] :: u8 list"
  have len: "length ?d = 4 * 2" by simp
  note t = toGrayscale_pixels [OF len, of 0]
  have px: "?d ! (4 * 0) = 0" "?d ! (4 * 0 + 1) = 14" "?d ! (4 * 0 + 2) = 76" "?d ! (4 * 0 + 3) = 255"
    by simp_all
  from t have "int (unat (toGrayscale ?d ! (4 * 0))) = luma 0 14 76"
    unfolding px luma_def by simp
  with t px luma_missed_tie len show ?thesis by simp
qed

text \<open>The bytes of the two pixels of that buffer.\<close>

lemma toGrayscale_example:
  "toGrayscale [0, 14, 76, 255, 1, 2, 3, 7] = [15, 15, 15, 255, 2, 2, 2, 7]"
proof -
  have "toUint8Clamp (real_of_int 15) = 15" "toUint8Clamp (real_of_int 2) = 2"
    using round_half_even_of_int [of 15] round_half_even_of_int [of 2]
    by (simp_all add: toUint8Clamp_def)
  then show ?thesis
    by (simp add: luma_missed_tie luma_1_2_3)
qed

section \<open>Intensity normalisation\<close>

lemma range_scan_fold:
  "range_scan data (mn, mx) =
     (fold min (map uint (lumas data)) mn, fold max (map uint (lumas data)) mx)"
proof (induction data "(mn, mx)" arbitrary: mn mx rule: range_scan.induct)
  case (1 mn mx)
  then show ?case by simp
next
  case (2 v rest mn mx)
  have "(if uint v < mn then uint v else mn) = min (uint v) mn"
    and "(if mx < uint v then uint v else mx) = max (uint v) mx"
    by (simp_all add: min_def max_def)
  with "2.hyps" show ?case by simp
qed

lemma range_scan_eq:
  "range_scan data (mn, mx) =
     (Min (insert mn (uint ` set (lumas data))), Max (insert mx (uint ` set (lumas data))))"
  using Min.set_eq_fold [of mn "map uint (lumas data)"]
    Max.set_eq_fold [of mx "map uint (lumas data)"]
  by (simp add: range_scan_fold)

lemma length_stretch [simp]: "length (stretch mn rng data) = length data"
  by (induction mn rng data rule: stretch.induct) (simp_all add: Let_def)

lemma length_normalizeIntensity [simp]: "length (normalizeIntensity data) = length data"
  by (simp add: normalizeIntensity_def Let_def split: prod.splits)

lemma lumas_stretch:
  "lumas (stretch mn rng data) =
     map (\<lambda>y. toUint8Clamp (of_int (stretch_value mn rng y))) (lumas data)"
  by (induction mn rng data rule: stretch.induct) (simp_all add: Let_def)

lemma stretch_alpha:
  "4 * k + 3 < length data \<Longrightarrow> stretch mn rng data ! (4 * k + 3) = data ! (4 * k + 3)"
proof (induction mn rng data arbitrary: k rule: stretch.induct)
  case (1 mn rng y g b a rest)
  show ?case
  proof (cases k)
    case 0
    then show ?thesis by (simp add: Let_def)
  next
    case (Suc j)
    with "1.prems" have "4 * j + 3 < length rest" by simp
    from "1.IH" [OF refl this] show ?thesis
      unfolding Suc stretch.simps Let_def nth_quad_Suc .
  qed
qed simp_all

lemma stretch_value_min [simp]: "stretch_value (uint y) rng y = 0"
  by (simp add: stretch_value_def js_round_def)

lemma stretch_value_max:
  assumes "mn < uint y"
  shows "stretch_value mn (uint y - mn) y = 255"
proof -
  have "uint y - mn \<noteq> 0" using assms by linarith
  then have "real_of_int (uint y - mn) \<noteq> 0"
    by (simp only: of_int_eq_0_iff not_False_eq_True)
  then have "real_of_int (uint y - mn) / real_of_int (uint y - mn) = 1"
    by (rule divide_self)
  then show ?thesis
    unfolding stretch_value_def js_round_def by (simp only:) simp
qed

lemma lumas_normalizeIntensity:
  "lumas (normalizeIntensity data) =
     map (\<lambda>y. toUint8Clamp (of_int (stretch_value (Min (insert 255 (uint ` set (lumas data))))
            (max 1 (Max (insert 0 (uint ` set (lumas data)))
                    - Min (insert 255 (uint ` set (lumas data))))) y)))
       (lumas data)"
  by (simp add: normalizeIntensity_def range_scan_eq lumas_stretch Let_def)

lemma Min_lumas:
  assumes "y \<in> set (lumas data)"
  shows "Min (insert 255 (uint ` set (lumas data))) = Min (uint ` set (lumas data))"
    and "Max (insert 0 (uint ` set (lumas data))) = Max (uint ` set (lumas data))"
proof -
  let ?S = "uint ` set (lumas data)"
  have ne: "?S \<noteq> {}" and fin: "finite ?S" using assms by auto
  have mem: "uint y \<in> ?S" using assms by (rule imageI)
  have "Min ?S \<le> uint y" using fin mem by (rule Min_le)
  then have "Min ?S \<le> 255" using uint_u8_range [of y] by linarith
  then show "Min (insert 255 ?S) = Min ?S"
    by (simp only: Min_insert [OF fin ne] min.absorb2)
  have "uint y \<le> Max ?S" using fin mem by (rule Max_ge)
  then have "0 \<le> Max ?S" using uint_u8_range [of y] by linarith
  then show "Max (insert 0 ?S) = Max ?S"
    by (simp only: Max_insert [OF fin ne] max.absorb2)
qed

text \<open>
  C2. After \<open>normalizeIntensity\<close> the least output luma is 0 and the greatest is 255,
  unless all input pixels share one luma: then every output luma is 0. The buffer keeps
  its length and every pixel its alpha.
\<close>

theorem normalizeIntensity_range:
  "(if \<exists>a\<in>set (lumas data). \<exists>b\<in>set (lumas data). a \<noteq> b
    then Min (set (lumas (normalizeIntensity data))) = 0
       \<and> Max (set (lumas (normalizeIntensity data))) = 255
    else \<forall>v\<in>set (lumas (normalizeIntensity data)). v = 0)
   \<and> length (normalizeIntensity data) = length data
   \<and> (\<forall>k. 4 * k + 3 < length data \<longrightarrow>
         normalizeIntensity data ! (4 * k + 3) = data ! (4 * k + 3))"
proof (intro conjI)
  let ?L = "lumas data"
  let ?S = "uint ` set ?L"
  let ?mn = "Min (insert 255 ?S)" and ?mx = "Max (insert 0 ?S)"
  let ?f = "\<lambda>y. toUint8Clamp (of_int (stretch_value ?mn (max 1 (?mx - ?mn)) y))"
  have out: "lumas (normalizeIntensity data) = map ?f ?L"
    by (rule lumas_normalizeIntensity)
  show "if \<exists>a\<in>set ?L. \<exists>b\<in>set ?L. a \<noteq> b
    then Min (set (lumas (normalizeIntensity data))) = 0
       \<and> Max (set (lumas (normalizeIntensity data))) = 255
    else \<forall>v\<in>set (lumas (normalizeIntensity data)). v = 0"
  proof (cases "\<exists>a\<in>set ?L. \<exists>b\<in>set ?L. a \<noteq> b")
    case True
    then obtain a b where ab: "a \<in> set ?L" "b \<in> set ?L" "a \<noteq> b" by blast
    have fin: "finite ?S" and ne: "?S \<noteq> {}" using ab by auto
    have mn: "?mn = Min ?S" and mx: "?mx = Max ?S" using Min_lumas [OF ab(1)] by simp_all
    have "uint a \<noteq> uint b" using ab(3) by (simp add: word_uint_eq_iff)
    moreover have "Min ?S \<le> uint a" "Min ?S \<le> uint b" "uint a \<le> Max ?S" "uint b \<le> Max ?S"
      using ab fin by simp_all
    ultimately have lt: "?mn < ?mx" unfolding mn mx by linarith
    obtain lo where lo: "lo \<in> set ?L" "uint lo = ?mn"
      using Min_in [OF fin ne] unfolding mn by auto
    obtain hi where hi: "hi \<in> set ?L" "uint hi = ?mx"
      using Max_in [OF fin ne] unfolding mx by auto
    have "?f lo = 0"
      using lo(2) [symmetric] by simp
    then have zero: "0 \<in> set (map ?f ?L)" using lo(1) by force
    have "stretch_value ?mn (max 1 (?mx - ?mn)) hi = 255"
      using stretch_value_max [of ?mn hi] lt hi(2) by (simp add: max_def)
    then have "?f hi = 255" by simp
    then have top: "255 \<in> set (map ?f ?L)" using hi(1) by force
    have "Min (set (map ?f ?L)) = 0"
      by (rule Min_eqI) (use zero in simp_all)
    moreover have "Max (set (map ?f ?L)) = 255"
      by (rule Max_eqI) (use top u8_le_255 in simp_all)
    ultimately show ?thesis using True out by simp
  next
    case False
    have "?f y = 0" if y: "y \<in> set ?L" for y
    proof -
      have "set ?L = {y}" using False y by auto
      then have "?S = {uint y}" by simp
      then have "?mn = uint y" using Min_lumas(1) [OF y] by simp
      then show ?thesis by simp
    qed
    then show ?thesis using False out by simp
  qed
  show "length (normalizeIntensity data) = length data"
    by simp
  show "\<forall>k. 4 * k + 3 < length data \<longrightarrow>
         normalizeIntensity data ! (4 * k + 3) = data ! (4 * k + 3)"
    by (simp add: normalizeIntensity_def Let_def stretch_alpha split: prod.splits)
qed

theorem normalizeIntensity_range_witness:
  "Min (set (lumas (normalizeIntensity [10, 10, 10, 255, 20, 20, 20, 254, 30, 30, 30, 7]))) = 0
   \<and> Max (set (lumas (normalizeIntensity [10, 10, 10, 255, 20, 20, 20, 254, 30, 30, 30, 7]))) = 255
   \<and> normalizeIntensity [10, 10, 10, 255, 20, 20, 20, 254, 30, 30, 30, 7] ! (4 * 1 + 3) = 254"
proof -
  let ?d = "[10, 10, 10, 255, 20, 20, 20, 254, 30, 30, 30, 7] :: u8 list"
  have ne: "\<exists>a\<in>set (lumas ?d). \<exists>b\<in>set (lumas ?d). a \<noteq> b"
    by (rule bexI [of _ 10], rule bexI [of _ 20]) simp_all
  have len: "4 * 1 + 3 < length ?d" by simp
  note rng = normalizeIntensity_range [of ?d]
  from rng ne have "Min (set (lumas (normalizeIntensity ?d))) = 0
       \<and> Max (set (lumas (normalizeIntensity ?d))) = 255"
    by (simp only: if_True)
  moreover from rng have "4 * 1 + 3 < length ?d \<longrightarrow>
      normalizeIntensity ?d ! (4 * 1 + 3) = ?d ! (4 * 1 + 3)"
    by blast
  with len have "normalizeIntensity ?d ! (4 * 1 + 3) = 254" by simp
  ultimately show ?thesis by blast
qed

section \<open>Histogram and entropy\<close>

lemma tally_props:
  assumes "length hist = 256"
  shows "length (fst (tally data (hist, count))) = 256
       \<and> sum_list (fst (tally data (hist, count))) = sum_list hist + length (lumas data)
       \<and> snd (tally data (hist, count)) = count + length (lumas data)"
  using assms
proof (induction data "(hist, count)" arbitrary: hist count rule: tally.induct)
  case (1 hist count)
  then show ?case by simp
next
  case (2 v rest hist count)
  have v: "unat v < length hist" using unat_u8_le [of v] "2.prems" by simp
  have len: "length (hist[unat v := Suc (hist ! unat v)]) = 256" using "2.prems" by simp
  have "sum_list (hist[unat v := Suc (hist ! unat v)]) = Suc (sum_list hist)"
    using v by (simp add: sum_list_update)
  with "2.hyps" [OF len] show ?case by simp
qed

lemma lumas_Nil [simp]: "lumas data = [] \<longleftrightarrow> data = []"
  by (cases data) simp_all

lemma computeHistogram_eq:
  assumes "data \<noteq> []"
  shows "computeHistogram data =
     map Some (map (\<lambda>c. real c / real (length (lumas data))) (bin_counts data))"
    and "length (bin_counts data) = 256"
    and "sum_list (bin_counts data) = length (lumas data)"
proof -
  note p = tally_props [of "replicate 256 0" data 0]
  have cnt: "snd (tally data (replicate 256 0, 0)) = length (lumas data)"
    using p by simp
  have "length (lumas data) \<noteq> 0" using assms by simp
  then show "computeHistogram data =
     map Some (map (\<lambda>c. real c / real (length (lumas data))) (bin_counts data))"
    using cnt by (simp add: computeHistogram_def bin_counts_def split_beta Let_def)
  show "length (bin_counts data) = 256" using p by (simp add: bin_counts_def)
  show "sum_list (bin_counts data) = length (lumas data)" using p by (simp add: bin_counts_def)
qed

lemma sum_list_divide:
  "sum_list (map (\<lambda>c. real c / n) cs) = real (sum_list cs) / n"
  by (induction cs) (simp_all add: add_divide_distrib)

text \<open>
  C6. The histogram of a non-empty buffer has 256 entries, none of them NaN or negative,
  and their sum is within one billionth of 1 (in exact arithmetic it is 1).
\<close>

theorem computeHistogram_sums_to_one:
  assumes "data \<noteq> []"
  shows "\<exists>ps. computeHistogram data = map Some ps \<and> length ps = 256
           \<and> \<bar>sum_list ps - 1\<bar> \<le> 1 / 10 ^ 9 \<and> (\<forall>p\<in>set ps. 0 \<le> p)"
proof -
  let ?n = "length (lumas data)"
  let ?ps = "map (\<lambda>c. real c / real ?n) (bin_counts data)"
  note h = computeHistogram_eq [OF assms]
  have "?n \<noteq> 0" using assms by simp
  then have "sum_list ?ps = 1"
    by (simp add: sum_list_divide h(3))
  moreover have "\<forall>p\<in>set ?ps. 0 \<le> p" by auto
  ultimately show ?thesis using h(1,2) by (intro exI [of _ ?ps]) simp
qed

theorem computeHistogram_sums_to_one_witness:
  "[5, 0, 0, 9 :: u8] \<noteq> [] \<and>
   (\<exists>ps. computeHistogram [5, 0, 0, 9] = map Some ps \<and> length ps = 256
          \<and> \<bar>sum_list ps - 1\<bar> \<le> 1 / 10 ^ 9 \<and> (\<forall>p\<in>set ps. 0 \<le> p))"
  using computeHistogram_sums_to_one [of "[5, 0, 0, 9]"] by simp


text \<open>
  The entries are quotients of two integers. If each is replaced by a value within the
  relative error \<open>1 / 2 ^ 53\<close> of it, as rounding a quotient to a double does, the sum
  stays within \<open>1 / 2 ^ 53\<close> of 1.
\<close>

lemma rounded_sum_bound:
  fixes u :: real
  assumes "list_all2 (\<lambda>q p. \<bar>q - p\<bar> \<le> u * p) qs ps"
  shows "\<bar>sum_list qs - sum_list ps\<bar> \<le> u * sum_list ps"
  using assms
proof (induction rule: list_all2_induct)
  case Nil
  then show ?case by simp
next
  case (Cons q qs p ps)
  have "\<bar>(q + sum_list qs) - (p + sum_list ps)\<bar> \<le> \<bar>q - p\<bar> + \<bar>sum_list qs - sum_list ps\<bar>"
    by linarith
  with Cons show ?case by (simp add: distrib_left)
qed

lemma computeHistogram_rounded_entries:
  assumes "data \<noteq> []" and "computeHistogram data = map Some ps"
    and "list_all2 (\<lambda>q p. \<bar>q - p\<bar> \<le> (1 / 2 ^ 53) * p) qs ps"
  shows "\<bar>sum_list qs - 1\<bar> \<le> 1 / 2 ^ 53"
proof -
  let ?n = "length (lumas data)"
  have "?n \<noteq> 0" using assms(1) by simp
  then have "sum_list (map (\<lambda>c. real c / real ?n) (bin_counts data)) = 1"
    by (simp add: sum_list_divide computeHistogram_eq(3) [OF assms(1)])
  moreover have "map Some ps = map Some (map (\<lambda>c. real c / real ?n) (bin_counts data))"
    using computeHistogram_eq(1) [OF assms(1)] assms(2) by simp
  then have "ps = map (\<lambda>c. real c / real ?n) (bin_counts data)"
    by (rule map_injective) simp
  ultimately have "sum_list ps = 1" by simp
  with rounded_sum_bound [OF assms(3)] show ?thesis by simp
qed

lemma histEntropy_fold:
  "fold (\<lambda>p s. case p of Some q \<Rightarrow> if 0 < q then s + q * log 2 q else s | None \<Rightarrow> s)
     (map Some ps) s = s - sum_list (map entropy_term ps)"
  by (induction ps arbitrary: s) (simp_all add: entropy_term_def)

lemma histEntropy_sum: "histEntropy (map Some ps) = sum_list (map entropy_term ps)"
  by (simp add: histEntropy_def histEntropy_fold)

lemma entropy_term_nonneg:
  assumes "p \<le> 1"
  shows "0 \<le> entropy_term p"
proof (cases "0 < p")
  case True
  then have "log 2 p \<le> 0" using assms by simp
  then have "p * log 2 p \<le> 0" using True by (simp add: mult_le_0_iff)
  then show ?thesis using True by (simp add: entropy_term_def)
next
  case False
  then show ?thesis by (simp add: entropy_term_def)
qed

lemma entropy_term_upper:
  assumes "0 \<le> p"
  shows "entropy_term p \<le> 8 * p + (1 / 256 - p) / ln 2"
proof (cases "0 < p")
  case True
  have ln2: "0 < ln (2 :: real)" by simp
  have "ln (1 / (256 * p)) \<le> 1 / (256 * p) - 1"
    using True by (intro ln_le_minus_one) simp
  moreover have "ln (1 / (256 * p)) = - ln 256 - ln p"
    using True by (simp add: ln_div ln_mult)
  moreover have "ln (256 :: real) = 8 * ln 2"
    using ln_realpow [of "2 :: real" 8] by simp
  ultimately have "- ln p \<le> 8 * ln 2 + 1 / (256 * p) - 1" by linarith
  then have "p * (- ln p) \<le> p * (8 * ln 2 + 1 / (256 * p) - 1)"
    using True by (intro mult_left_mono) simp_all
  also have "\<dots> = 8 * p * ln 2 + 1 / 256 - p"
    using True by (simp add: field_simps)
  finally have "p * (- ln p) / ln 2 \<le> (8 * p * ln 2 + 1 / 256 - p) / ln 2"
    using ln2 by (intro divide_right_mono) simp_all
  also have "\<dots> = 8 * p + (1 / 256 - p) / ln 2"
    using ln2 by (simp add: field_simps)
  finally show ?thesis
    using True by (simp add: entropy_term_def log_def)
next
  case False
  with assms have "p = 0" by simp
  then show ?thesis by (simp add: entropy_term_def)
qed

lemma sum_list_affine:
  "sum_list (map (\<lambda>p. a * p + (b - p) / c) ps) = a * sum_list ps + (b * real (length ps) - sum_list ps) / c"
  by (induction ps) (simp_all add: field_simps add_divide_distrib diff_divide_distrib)

text \<open>
  C7. The entropy of the histogram of a non-empty buffer lies between 0 and 8.
\<close>

theorem histEntropy_bounds:
  assumes "data \<noteq> []"
  shows "0 \<le> histEntropy (computeHistogram data) \<and> histEntropy (computeHistogram data) \<le> 8"
proof -
  let ?n = "length (lumas data)"
  let ?ps = "map (\<lambda>c. real c / real ?n) (bin_counts data)"
  note h = computeHistogram_eq [OF assms]
  have n: "?n \<noteq> 0" using assms by simp
  then have total: "sum_list ?ps = 1"
    by (simp add: sum_list_divide h(3))
  have len: "length ?ps = 256" using h(2) by simp
  have lo: "0 \<le> p" if "p \<in> set ?ps" for p using that by auto
  have hi: "p \<le> 1" if "p \<in> set ?ps" for p
  proof -
    from that obtain c where c: "c \<in> set (bin_counts data)" "p = real c / real ?n" by auto
    have "c \<le> sum_list (bin_counts data)" by (rule member_le_sum_list) (use c(1) in auto)
    then have "real c \<le> real ?n" using h(3) by simp
    then show ?thesis using n c(2) by (simp add: divide_le_eq_1)
  qed
  have "0 \<le> sum_list (map entropy_term ?ps)"
    by (rule sum_list_nonneg) (use hi entropy_term_nonneg in auto)
  moreover have "sum_list (map entropy_term ?ps)
      \<le> sum_list (map (\<lambda>p. 8 * p + (1 / 256 - p) / ln 2) ?ps)"
    by (rule sum_list_mono) (use lo entropy_term_upper in auto)
  moreover have "sum_list (map (\<lambda>p. 8 * p + (1 / 256 - p) / ln 2) ?ps) = 8"
    unfolding sum_list_affine total len by simp
  ultimately show ?thesis
    unfolding h(1) histEntropy_sum by simp
qed

theorem histEntropy_bounds_witness:
  "[5, 0, 0, 9 :: u8] \<noteq> [] \<and> 0 \<le> histEntropy (computeHistogram [5, 0, 0, 9])
   \<and> histEntropy (computeHistogram [5, 0, 0, 9]) \<le> 8"
  using histEntropy_bounds [of "[5, 0, 0, 9]"] by simp


section \<open>Percentiles\<close>

lemma js_round_mono: "x \<le> y \<Longrightarrow> js_round x \<le> js_round y"
  by (simp add: js_round_def floor_mono)

lemma rank_index_mono:
  assumes "1 \<le> n" and "p \<le> q"
  shows "rank_index n p \<le> rank_index n q"
proof -
  have "p / 100 * real_of_int (n - 1) \<le> q / 100 * real_of_int (n - 1)"
    using assms by (intro mult_right_mono divide_right_mono) simp_all
  then have "js_round (p / 100 * real_of_int (n - 1)) \<le> js_round (q / 100 * real_of_int (n - 1))"
    by (rule js_round_mono)
  then show ?thesis unfolding rank_index_def by linarith
qed

lemma rank_index_range: "1 \<le> n \<Longrightarrow> 0 \<le> rank_index n p \<and> rank_index n p < n"
  unfolding rank_index_def by linarith

lemma percentiles_eq:
  assumes "values \<noteq> []"
  shows "percentiles values ps =
     map (\<lambda>p. Some (sort values ! nat (rank_index (int (length values)) p))) ps"
proof -
  have "1 \<le> int (length values)" using assms by (cases "values") simp_all
  from rank_index_range [OF this] show ?thesis
    unfolding percentiles_def Let_def rank_index_def by simp
qed

lemma percentile_mono:
  assumes "values \<noteq> []" and "p \<le> q"
  shows "sort values ! nat (rank_index (int (length values)) p)
       \<le> sort values ! nat (rank_index (int (length values)) q)"
proof -
  have n: "1 \<le> int (length values)" using assms(1) by (cases "values") simp_all
  have "nat (rank_index (int (length values)) p) \<le> nat (rank_index (int (length values)) q)"
    using rank_index_mono [OF n assms(2)] by simp
  moreover have "nat (rank_index (int (length values)) q) < length (sort values)"
    using rank_index_range [OF n, of q] by (simp add: nat_less_iff)
  ultimately show ?thesis
    using sorted_sort [of "values"] by (intro sorted_nth_mono)
qed

lemma percentiles_triple:
  assumes "values \<noteq> []"
  shows "\<exists>a b c. percentiles values [50, 90, 99] = [Some a, Some b, Some c] \<and> a \<le> b \<and> b \<le> c"
  using percentile_mono [OF assms, of 50 90] percentile_mono [OF assms, of 90 99]
  by (simp add: percentiles_eq [OF assms])

text \<open>
  C10. On a non-empty field the 50th, 90th and 99th percentiles are numbers in
  ascending order.
\<close>

theorem percentiles_monotone:
  assumes "values \<noteq> []"
  shows "\<exists>a b c. percentiles values [50, 90, 99] = [Some a, Some b, Some c] \<and> a \<le> b \<and> b \<le> c"
  using percentile_mono [OF assms, of 50 90] percentile_mono [OF assms, of 90 99]
  by (simp add: percentiles_eq [OF assms])

theorem percentiles_monotone_witness:
  "[3, 1, 2 :: real] \<noteq> [] \<and>
   (\<exists>a b c. percentiles [3, 1, 2] [50, 90, 99] = [Some a, Some b, Some c] \<and> a \<le> b \<and> b \<le> c)"
  using percentiles_monotone [of "[3, 1, 2]"] by simp

lemma percentiles_example: "percentiles [3, 1, 2] [50, 90, 99] = [Some 2, Some 3, Some 3]"
  by (simp add: percentiles_def js_round_def)


section \<open>Filling a grid cell by cell\<close>

text \<open>
  The pixel loops of the module write the cell \<open>y * width + x\<close> of a flat array for
  every row \<open>y\<close> and column \<open>x\<close> they visit. The cell at an index \<open>j\<close> is then
  the value computed for the column \<open>j mod width\<close> and the row \<open>j div width\<close> when
  the loops visit them, and the initial value otherwise.
\<close>

lemma length_fold_update [simp]:
  "length (fold (\<lambda>x m. m[g x := f x]) xs m) = length m"
  by (induction xs arbitrary: m) simp_all

lemma length_fold_fold_update [simp]:
  "length (fold (\<lambda>y. fold (\<lambda>x m. m[g x y := f x y]) xs) ys m) = length m"
  by (induction ys arbitrary: m) simp_all

lemma row_fill_nth:
  "j < length m \<Longrightarrow> fold (\<lambda>x m. m[k + x := f x]) xs m ! j =
     (if k \<le> j \<and> j - k \<in> set xs then f (j - k) else m ! j)"
proof (induction xs arbitrary: m)
  case Nil
  then show ?case by simp
next
  case (Cons x xs)
  have "j < length (m[k + x := f x])" using Cons.prems by simp
  from Cons.IH [OF this] show ?case
    using Cons.prems by (auto simp: nth_list_update)
qed

lemma grid_fill_nth:
  assumes "\<forall>x\<in>set xs. x < w" and "j < length m"
  shows "fold (\<lambda>y. fold (\<lambda>x m. m[y * w + x := f x y]) xs) ys m ! j =
     (if j div w \<in> set ys \<and> j mod w \<in> set xs
      then f (j mod w) (j div w) else m ! j)"
  using assms(2)
proof (induction ys arbitrary: m)
  case Nil
  then show ?case by simp
next
  case (Cons y ys)
  have row: "(y * w \<le> j \<and> j - y * w \<in> set xs) \<longleftrightarrow> (j div w = y \<and> j mod w \<in> set xs)"
  proof
    assume a: "y * w \<le> j \<and> j - y * w \<in> set xs"
    then have lt: "j - y * w < w" using assms(1) by blast
    define r where "r = j - y * w"
    have j: "j = r + y * w" using a by (simp add: r_def)
    have "r < w" using lt by (simp add: r_def)
    then have "j div w = y" "j mod w = r" unfolding j by simp_all
    then show "j div w = y \<and> j mod w \<in> set xs" using a by (simp add: r_def)
  next
    assume a: "j div w = y \<and> j mod w \<in> set xs"
    have "j = j div w * w + j mod w" by simp
    then have "y * w \<le> j" "j - y * w = j mod w" using a
      by (metis le_add1, metis add_diff_cancel_left')
    then show "y * w \<le> j \<and> j - y * w \<in> set xs" using a by simp
  qed
  have val: "j - y * w = j mod w" if "j div w = y"
    using that minus_div_mult_eq_mod [of j w] by auto
  have len: "j < length (fold (\<lambda>x m. m[y * w + x := f x y]) xs m)"
    using Cons.prems by simp
  show ?case
    using row val Cons.prems by (auto simp: Cons.IH [OF len] row_fill_nth)
qed


section \<open>Sobel edge magnitude\<close>

lemma sample_in:
  "0 \<le> i \<Longrightarrow> i < int (length buf) \<Longrightarrow> sample buf i = Some (real (unat (buf ! nat i)))"
  by (simp add: sample_def)

lemma clamp_range: "lo \<le> hi \<Longrightarrow> lo \<le> clamp x lo hi \<and> clamp x lo hi \<le> hi"
  by (simp add: clamp_def)

lemma cell_index_bound:
  fixes px py w h :: int
  assumes "0 \<le> px" "px \<le> w - 1" "0 \<le> py" "py \<le> h - 1"
  shows "0 \<le> (py * w + px) * 4 \<and> (py * w + px) * 4 < 4 * w * h"
proof -
  have w: "0 \<le> w" using assms by linarith
  have "py * w \<le> (h - 1) * w" using assms(4) w by (rule mult_right_mono)
  then have "py * w + px \<le> h * w - 1" using assms(2) by (simp add: algebra_simps)
  moreover have "0 \<le> py * w" using assms(3) w by simp
  ultimately show ?thesis using assms(1) by (simp add: algebra_simps)
qed

lemma sample_clamped:
  assumes "4 * w * h \<le> length gray" and "0 < w" and "0 < h"
  shows "sample gray ((clamp b 0 (int h - 1) * int w + clamp a 0 (int w - 1)) * 4)
           = Some (pixel_clamped gray w h a b)"
proof -
  have cx: "0 \<le> clamp a 0 (int w - 1) \<and> clamp a 0 (int w - 1) \<le> int w - 1"
    using assms(2) by (intro clamp_range) simp
  have cy: "0 \<le> clamp b 0 (int h - 1) \<and> clamp b 0 (int h - 1) \<le> int h - 1"
    using assms(3) by (intro clamp_range) simp
  note b = cell_index_bound [of "clamp a 0 (int w - 1)" "int w" "clamp b 0 (int h - 1)" "int h"]
  have "4 * int w * int h \<le> int (length gray)"
    using assms(1) by (metis (mono_tags) of_nat_le_iff of_nat_mult of_nat_numeral)
  with b cx cy show ?thesis
    unfolding pixel_clamped_def by (intro sample_in) linarith+
qed

lemma sobel_step_eq:
  assumes "4 * w * h \<le> length gray" and "0 < w" and "0 < h"
  shows "sobel_step gray (int w) (int h) x y ky kx (Some a, Some b, idx) =
     (Some (a + gxKernel ! idx * pixel_clamped gray w h (x + kx) (y + ky)),
      Some (b + gyKernel ! idx * pixel_clamped gray w h (x + kx) (y + ky)),
      Suc idx)"
  unfolding sobel_step_def Let_def
  by (simp only: sample_clamped [OF assms] prod.case) simp

lemma sobel_at_eq:
  assumes "4 * w * h \<le> length gray" and "0 < w" and "0 < h"
  shows "sobel_at gray (int w) (int h) x y
           = Some (hypot (sobel_gx gray w h x y) (sobel_gy gray w h x y))"
  unfolding sobel_at_def
  by (simp add: sobel_step_eq [OF assms] gxKernel_def gyKernel_def sobel_gx_def sobel_gy_def Let_def)


lemma length_computeSobelEdges [simp]:
  "length (computeSobelEdges gray width height) = width * height"
  by (simp add: computeSobelEdges_def)

lemma cell_div_mod:
  fixes x y w :: nat
  assumes "x < w"
  shows "(y * w + x) div w = y" and "(y * w + x) mod w = x"
  using assms by simp_all

lemma cell_in_grid:
  fixes x y w h :: nat
  assumes "x < w" and "y < h"
  shows "y * w + x < w * h"
proof -
  have "y * w + x < Suc y * w" using assms(1) by simp
  also have "\<dots> \<le> h * w" using assms(2) by (intro mult_le_mono1) simp
  finally show ?thesis by (simp add: mult.commute)
qed

lemma computeSobelEdges_nth:
  assumes "x < width" and "y < height"
  shows "computeSobelEdges gray width height ! (y * width + x) =
     (if 1 \<le> x \<and> x + 1 < width \<and> 1 \<le> y \<and> y + 1 < height
      then sobel_at gray (int width) (int height) (int x) (int y) else Some 0)"
proof -
  have xs: "\<forall>x\<in>set [1..<width - 1]. x < width" by auto
  have j: "y * width + x < length (replicate (width * height) (Some (0 :: real)))"
    using cell_in_grid [OF assms] by simp
  show ?thesis
    unfolding computeSobelEdges_def
    using cell_in_grid [OF assms]
    by (subst grid_fill_nth [OF xs j]) (use assms in \<open>auto simp: cell_div_mod [OF assms(1)]\<close>)
qed

text \<open>
  C4. For a buffer of \<open>width * height\<close> pixels, the magnitude field has one cell per
  pixel; the cells of the first and last row and column are 0, and every other cell is
  \<open>hypot gx gy\<close> of the two 3x3 Sobel responses, read with clamped coordinates.
\<close>

theorem computeSobelEdges_cells:
  assumes "length gray = 4 * width * height" and "x < width" and "y < height"
  shows "length (computeSobelEdges gray width height) = width * height
       \<and> computeSobelEdges gray width height ! (y * width + x) =
           (if x = 0 \<or> x = width - 1 \<or> y = 0 \<or> y = height - 1 then Some 0
            else Some (hypot (sobel_gx gray width height (int x) (int y))
                             (sobel_gy gray width height (int x) (int y))))"
proof -
  have len: "4 * width * height \<le> length gray" using assms(1) by simp
  have pos: "0 < width" "0 < height" using assms(2,3) by simp_all
  have border: "(x = 0 \<or> x = width - 1 \<or> y = 0 \<or> y = height - 1)
      \<longleftrightarrow> \<not> (1 \<le> x \<and> x + 1 < width \<and> 1 \<le> y \<and> y + 1 < height)"
    using assms(2,3) by auto
  show ?thesis
    unfolding computeSobelEdges_nth [OF assms(2,3)] border
    by (simp add: sobel_at_eq [OF len pos])
qed


lemma hypot_0_left [simp]: "hypot 0 b = \<bar>b\<bar>"
  by (simp add: hypot_def)

theorem computeSobelEdges_cells_witness:
  "length example_grid = 4 * 3 * 3 \<and> (1 :: nat) < 3
   \<and> length (computeSobelEdges example_grid 3 3) = 3 * 3
   \<and> computeSobelEdges example_grid 3 3 ! (1 * 3 + 1) = Some 40
   \<and> computeSobelEdges example_grid 3 3 ! (0 * 3 + 1) = Some 0"
  using computeSobelEdges_cells [of example_grid 3 3 1 1]
    computeSobelEdges_cells [of example_grid 3 3 1 0]
  by (simp add: example_grid_def sobel_gx_def sobel_gy_def pixel_clamped_def clamp_def)

lemma clamp_id: "lo \<le> x \<Longrightarrow> x \<le> hi \<Longrightarrow> clamp x lo hi = x"
  by (simp add: clamp_def)

lemma sobel_step_unclamped_eq:
  assumes "1 \<le> x" "x < width - 1" "1 \<le> y" "y < height - 1"
    and "- 1 \<le> kx" "kx \<le> 1" "- 1 \<le> ky" "ky \<le> 1"
  shows "sobel_step gray width height x y ky kx = sobel_step_unclamped gray width height x y ky kx"
proof -
  have "clamp (x + kx) 0 (width - 1) = x + kx" "clamp (y + ky) 0 (height - 1) = y + ky"
    using assms by (simp_all add: clamp_id)
  then show ?thesis
    unfolding sobel_step_def sobel_step_unclamped_def by (simp only:)
qed

lemma sobel_at_unclamped_eq:
  assumes "1 \<le> x" "x < width - 1" "1 \<le> y" "y < height - 1"
  shows "sobel_at gray width height x y = sobel_at_unclamped gray width height x y"
  unfolding sobel_at_def sobel_at_unclamped_def
  by (simp add: sobel_step_unclamped_eq [OF assms])

text \<open>
  C9. At every pixel the loops visit and every kernel offset, clamping leaves the
  coordinate unchanged, and \<open>computeSobelEdges\<close> equals the function that reads the
  neighbour without clamping.
\<close>

theorem sobel_clamp_inactive:
  "(\<forall>x y kx ky. 1 \<le> x \<and> x < int width - 1 \<and> 1 \<le> y \<and> y < int height - 1
        \<and> - 1 \<le> kx \<and> kx \<le> 1 \<and> - 1 \<le> ky \<and> ky \<le> 1 \<longrightarrow>
      clamp (x + kx) 0 (int width - 1) = x + kx \<and> clamp (y + ky) 0 (int height - 1) = y + ky)
   \<and> computeSobelEdges gray width height = computeSobelEdges_unclamped gray width height"
proof
  show "\<forall>x y kx ky. 1 \<le> x \<and> x < int width - 1 \<and> 1 \<le> y \<and> y < int height - 1
        \<and> - 1 \<le> kx \<and> kx \<le> 1 \<and> - 1 \<le> ky \<and> ky \<le> 1 \<longrightarrow>
      clamp (x + kx) 0 (int width - 1) = x + kx \<and> clamp (y + ky) 0 (int height - 1) = y + ky"
    by (simp add: clamp_id)
  have cell: "sobel_at gray (int width) (int height) (int x) (int y)
      = sobel_at_unclamped gray (int width) (int height) (int x) (int y)"
    if "x \<in> set [1..<width - 1]" and "y \<in> set [1..<height - 1]" for x y
    using that by (intro sobel_at_unclamped_eq) auto
  show "computeSobelEdges gray width height = computeSobelEdges_unclamped gray width height"
    unfolding computeSobelEdges_def computeSobelEdges_unclamped_def
    by (intro fold_cong refl ext) (simp add: cell)
qed

theorem sobel_clamp_inactive_witness:
  "clamp (1 + (- 1)) 0 (int 3 - 1) = 1 + (- 1) \<and> clamp (1 + 1) 0 (int 3 - 1) = 1 + 1
   \<and> computeSobelEdges example_grid 3 3 = computeSobelEdges_unclamped example_grid 3 3"
proof -
  note t = sobel_clamp_inactive [of 3 3 example_grid]
  from t have "1 \<le> (1 :: int) \<and> (1 :: int) < int 3 - 1 \<and> 1 \<le> (1 :: int) \<and> (1 :: int) < int 3 - 1
        \<and> - 1 \<le> (- 1 :: int) \<and> (- 1 :: int) \<le> 1 \<and> - 1 \<le> (1 :: int) \<and> (1 :: int) \<le> 1 \<longrightarrow>
      clamp (1 + (- 1)) 0 (int 3 - 1) = 1 + (- 1) \<and> clamp (1 + 1) 0 (int 3 - 1) = 1 + 1"
    by blast
  then have "clamp (1 + (- 1)) 0 (int 3 - 1) = 1 + (- 1) \<and> clamp (1 + 1) 0 (int 3 - 1) = 1 + 1"
    by simp
  with t show ?thesis by blast
qed


section \<open>The analysis never meets NaN on a full canvas\<close>

lemma fold_invariant:
  assumes "P s" and "\<And>x t. x \<in> set xs \<Longrightarrow> P t \<Longrightarrow> P (f x t)"
  shows "P (fold f xs s)"
  using assms by (induction xs arbitrary: s) simp_all

lemma histMean_closed:
  "fold (\<lambda>(p, i) s. do { a \<leftarrow> s; q \<leftarrow> p; Some (a + q * real i) })
     (zip (map Some ps) ns) (Some a)
   = Some (a + sum_list (map (\<lambda>(p, i). p * real i) (zip ps ns)))"
proof (induction ps arbitrary: ns a)
  case Nil
  then show ?case by simp
next
  case (Cons p ps)
  then show ?case by (cases ns) (simp_all add: add.assoc)
qed

lemma histVar_closed:
  "fold (\<lambda>(p, i) s. do { a \<leftarrow> s; q \<leftarrow> p; m \<leftarrow> Some c;
                        Some (a + q * (real i - m) * (real i - m)) })
     (zip (map Some ps) ns) (Some a)
   = Some (a + sum_list (map (\<lambda>(p, i). p * (real i - c) * (real i - c)) (zip ps ns)))"
proof (induction ps arbitrary: ns a)
  case Nil
  then show ?case by simp
next
  case (Cons p ps)
  then show ?case by (cases ns) (simp_all add: add.assoc)
qed

lemma histMean_Some:
  "histMean (map Some ps)
     = Some (sum_list (map (\<lambda>(p, i). p * real i) (zip ps [0..<length ps])))"
  unfolding histMean_def using histMean_closed [of ps "[0..<length ps]" 0] by simp

lemma histVar_Some:
  "histVar (map Some ps) (Some c)
     = Some (sum_list (map (\<lambda>(p, i). p * (real i - c) * (real i - c)) (zip ps [0..<length ps])))"
  unfolding histVar_def using histVar_closed [of c ps "[0..<length ps]" 0] by simp

lemma those_map_Some [simp]: "those (map Some xs) = Some xs"
  by (induction xs) simp_all

lemma those_all_Some:
  assumes "\<forall>j<length xs. \<exists>v. xs ! j = Some v"
  shows "\<exists>vs. xs = map Some vs"
proof -
  have "xs = map Some (map the xs)"
    using assms by (auto simp: list_eq_iff_nth_eq)
  then show ?thesis ..
qed

lemma computeSobelEdges_Some:
  assumes "4 * w * h \<le> length gray"
  shows "\<exists>vs. computeSobelEdges gray w h = map Some vs \<and> length vs = w * h"
proof -
  have "\<exists>v. computeSobelEdges gray w h ! j = Some v" if j: "j < w * h" for j
  proof -
    have w: "0 < w" using j by (cases w) simp_all
    have h: "0 < h" using j by (cases h) simp_all
    have x: "j mod w < w" using w by simp
    have y: "j div w < h" using j by (simp add: less_mult_imp_div_less mult.commute)
    have "computeSobelEdges gray w h ! (j div w * w + j mod w) =
        (if 1 \<le> j mod w \<and> j mod w + 1 < w \<and> 1 \<le> j div w \<and> j div w + 1 < h
         then sobel_at gray (int w) (int h) (int (j mod w)) (int (j div w)) else Some 0)"
      by (rule computeSobelEdges_nth [OF x y])
    then have "computeSobelEdges gray w h ! j =
        (if 1 \<le> j mod w \<and> j mod w + 1 < w \<and> 1 \<le> j div w \<and> j div w + 1 < h
         then sobel_at gray (int w) (int h) (int (j mod w)) (int (j div w)) else Some 0)"
      by (simp only: div_mult_mod_eq)
    then show ?thesis
      by (simp only: sobel_at_eq [OF assms w h] if_distrib) (simp split: if_splits)
  qed
  then have "\<forall>j<length (computeSobelEdges gray w h). \<exists>v. computeSobelEdges gray w h ! j = Some v"
    by simp
  from those_all_Some [OF this] obtain vs where vs: "computeSobelEdges gray w h = map Some vs" ..
  then have "length vs = w * h"
    using length_computeSobelEdges [of gray w h] by simp
  with vs show ?thesis by blast
qed


lemma sample_cell:
  assumes "4 * w * h \<le> length gray" and "x < w" and "y < h"
  shows "\<exists>v. sample gray ((int y * int w + int x) * 4) = Some v"
proof -
  have "0 \<le> (int y * int w + int x) * 4 \<and> (int y * int w + int x) * 4 < 4 * int w * int h"
    using assms(2,3) by (intro cell_index_bound) simp_all
  moreover have "4 * int w * int h \<le> int (length gray)"
    using assms(1) by (metis (mono_tags) of_nat_le_iff of_nat_mult of_nat_numeral)
  ultimately show ?thesis by (simp add: sample_def)
qed

lemma texture_reads:
  assumes "4 * w * h \<le> length gray" and "x + 1 < w" and "y + 1 < h"
  shows "\<exists>a b c. sample gray ((int y * int w + int x) * 4) = Some a
           \<and> sample gray ((int y * int w + int x) * 4 + 4) = Some b
           \<and> sample gray ((int y * int w + int x) * 4 + int w * 4) = Some c"
proof -
  have e1: "(int y * int w + int x) * 4 + 4 = (int y * int w + int (Suc x)) * 4"
    by simp
  have e2: "(int y * int w + int x) * 4 + int w * 4 = (int (Suc y) * int w + int x) * 4"
    by (simp add: algebra_simps)
  have "x < w" "y < h" "Suc x < w" "Suc y < h" using assms(2,3) by simp_all
  then show ?thesis
    unfolding e1 e2
    using sample_cell [OF assms(1), of x y] sample_cell [OF assms(1), of "Suc x" y]
      sample_cell [OF assms(1), of x "Suc y"]
    by blast
qed

lemma computeTextureEnergy_Some:
  assumes "4 * w * h \<le> length gray" and "0 < w * h"
  shows "\<exists>e. computeTextureEnergy gray w h = Some e"
proof -
  let ?step = "\<lambda>y x energy.
     let i = (int y * int w + int x) * 4 in
     do { e \<leftarrow> energy;
          a \<leftarrow> sample gray i;
          b \<leftarrow> sample gray (i + 4);
          c \<leftarrow> sample gray (i + int w * 4);
          Some (e + (\<bar>a - b\<bar> + \<bar>a - c\<bar>)) }"
  let ?P = "\<lambda>s :: number. \<exists>e. s = Some e"
  have step: "?P (?step y x t)" if "x \<in> set [0..<w - 1]" "y \<in> set [0..<h - 1]" "?P t" for x y t
  proof -
    have "x + 1 < w" "y + 1 < h" using that(1,2) by auto
    from texture_reads [OF assms(1) this] that(3) show ?thesis
      by (auto simp: Let_def)
  qed
  have row: "?P (fold (?step y) [0..<w - 1] t)" if "y \<in> set [0..<h - 1]" "?P t" for y t
    by (rule fold_invariant [where P = ?P]) (use that step in blast)+
  have "?P (fold (\<lambda>y. fold (?step y) [0..<w - 1]) [0..<h - 1] (Some 0))"
    by (rule fold_invariant [where P = ?P]) (use row in blast)+
  then show ?thesis
    using assms(2) unfolding computeTextureEnergy_def Let_def by auto
qed

lemma mean_Some: "values \<noteq> [] \<Longrightarrow> \<exists>m. mean values = Some m"
  by (simp add: mean_def)

lemma std_Some: "\<exists>s. std values (Some (Some m)) = Some s"
proof -
  let ?P = "\<lambda>s :: number. \<exists>e. s = Some e"
  have "?P (fold (\<lambda>v s. do { a \<leftarrow> s; c \<leftarrow> Some m; Some (a + (v - c) * (v - c)) })
      values (Some 0))"
    by (rule fold_invariant [where P = ?P]) auto
  then show ?thesis unfolding std_def Let_def by auto
qed


lemma extract_features_Some:
  assumes "length normd = 4 * w * w" and "0 < w"
  shows "\<exists>a b c d e f g h i. extract_features normd w =
      [(''histMean'', Some a), (''histVar'', Some b), (''histEntropy'', Some c),
       (''edgeMean'', Some d), (''edgeStd'', Some e), (''edgeP50'', Some f),
       (''edgeP90'', Some g), (''edgeP99'', Some h), (''textureE'', Some i)]
     \<and> f \<le> g \<and> g \<le> h"
proof -
  have ne: "normd \<noteq> []" using assms by auto
  from computeHistogram_eq(1) [OF ne] obtain ps where hist: "computeHistogram normd = map Some ps"
    by blast
  obtain a where a: "histMean (computeHistogram normd) = Some a"
    unfolding hist histMean_Some by blast
  obtain b where b: "histVar (computeHistogram normd) (Some a) = Some b"
    unfolding hist histVar_Some by blast
  have len: "4 * w * w \<le> length normd" using assms(1) by simp
  from computeSobelEdges_Some [OF len] obtain vs
    where vs: "computeSobelEdges normd w w = map Some vs" "length vs = w * w" by blast
  have vne: "vs \<noteq> []" using vs(2) assms(2) by auto
  from mean_Some [OF vne] obtain d where d: "mean vs = Some d" by blast
  from std_Some obtain e where e: "std vs (Some (Some d)) = Some e" by blast
  from percentiles_triple [OF vne] obtain f g h
    where p: "percentiles vs [50, 90, 99] = [Some f, Some g, Some h]" "f \<le> g" "g \<le> h" by blast
  have "0 < w * w" using assms(2) by simp
  from computeTextureEnergy_Some [OF len this] obtain i
    where i: "computeTextureEnergy normd w w = Some i" by blast
  show ?thesis
    unfolding extract_features_def Let_def
    using p(2,3) by (simp add: a b vs(1) d e p(1) i)
qed

lemma score_Some:
  "score [(''histMean'', Some a), (''histVar'', Some b), (''histEntropy'', Some c),
       (''edgeMean'', Some d), (''edgeStd'', Some e), (''edgeP50'', Some f),
       (''edgeP90'', Some g), (''edgeP99'', Some h), (''textureE'', Some i)]
   = Some (bias + a * (- 0.01) + b * (- 0.002) + c * 0.8 + d * (- 0.015) + e * (- 0.02)
           + f * (- 0.001) + g * (- 0.0008) + h * (- 0.0005) + i * (- 0.004))"
  by (simp add: score_def weights_def)

lemma logistic_range: "0 < logistic x \<and> logistic x < 1"
proof -
  have "0 < exp (- x)" by simp
  then show ?thesis unfolding logistic_def by (simp add: add_pos_pos)
qed

lemma size_px_pos: "0 < size_px"
  by (simp add: size_px_def)

lemma analyzeCtVsMri_eq:
  assumes "length data = 4 * size_px * size_px"
  shows "analyzeCtVsMri data = Inr (classify (extract_features (preprocess data) size_px))"
proof -
  have len: "length (preprocess data) = size_px * size_px * 4"
    using assms by (simp add: preprocess_def)
  have "0 < size_px * size_px" using size_px_pos by simp
  then show ?thesis
    unfolding analyzeCtVsMri_def Let_def len using size_px_pos by simp
qed



section \<open>The analysis of a uniform picture\<close>

lemma uniform_image_Suc:
  "uniform_image (Suc n) r g b a = r # g # b # a # uniform_image n r g b a"
  by (simp add: uniform_image_def)

lemma uniform_image_0 [simp]: "uniform_image 0 r g b a = []"
  by (simp add: uniform_image_def)

lemma length_uniform_image [simp]: "length (uniform_image n r g b a) = 4 * n"
  by (induction n) (simp_all add: uniform_image_Suc)

lemma uniform_image_nth: "k < n \<Longrightarrow> uniform_image n r g b a ! (4 * k) = r"
proof (induction n arbitrary: k)
  case 0
  then show ?case by simp
next
  case (Suc n)
  show ?case
  proof (cases k)
    case 0
    then show ?thesis by (simp add: uniform_image_Suc)
  next
    case (Suc j)
    with Suc.prems have "j < n" by simp
    from Suc.IH [OF this] show ?thesis
      unfolding \<open>k = Suc j\<close> uniform_image_Suc
      using nth_quad_Suc [of r g b a "uniform_image n r g b a" j 0] by simp
  qed
qed

lemma lumas_uniform_image: "lumas (uniform_image n r g b a) = replicate n r"
  by (induction n) (simp_all add: uniform_image_Suc)

lemma toGrayscale_uniform_image:
  "toGrayscale (uniform_image n r g b a) =
     uniform_image n (toUint8Clamp (of_int (luma r g b))) (toUint8Clamp (of_int (luma r g b)))
       (toUint8Clamp (of_int (luma r g b))) a"
  by (induction n) (simp_all add: uniform_image_Suc Let_def)

lemma stretch_uniform_image:
  "stretch mn rng (uniform_image n v g b a) =
     uniform_image n (toUint8Clamp (of_int (stretch_value mn rng v)))
       (toUint8Clamp (of_int (stretch_value mn rng v)))
       (toUint8Clamp (of_int (stretch_value mn rng v))) a"
  by (induction n) (simp_all add: uniform_image_Suc Let_def)

lemma normalizeIntensity_uniform_image:
  "normalizeIntensity (uniform_image n v g b a) = uniform_image n 0 0 0 a"
proof (cases n)
  case 0
  then show ?thesis by (simp add: normalizeIntensity_def)
next
  case (Suc m)
  have "uint ` set (lumas (uniform_image n v g b a)) = {uint v}"
    using Suc by (auto simp: lumas_uniform_image)
  moreover have "min 255 (uint v) = uint v" "max 0 (uint v) = uint v"
    using uint_u8_range [of v] by simp_all
  ultimately have "range_scan (uniform_image n v g b a) (255, 0) = (uint v, uint v)"
    by (simp add: range_scan_eq)
  then show ?thesis
    by (simp add: normalizeIntensity_def stretch_uniform_image)
qed

lemma toUint8Clamp_128: "toUint8Clamp (of_int 128) = 128"
  using round_half_even_of_int [of 128] by (simp add: toUint8Clamp_def)

lemma preprocess_gray128:
  "preprocess gray128 = uniform_image (size_px * size_px) 0 0 0 255"
  by (simp add: preprocess_def gray128_def toGrayscale_uniform_image luma_128 toUint8Clamp_128
      normalizeIntensity_uniform_image)


lemma tally_uniform_image:
  "tally (uniform_image n v g b a) (hist, count) =
     (hist[unat v := hist ! unat v + n], count + n)"
proof (induction n arbitrary: hist count)
  case 0
  then show ?case by simp
next
  case (Suc n)
  show ?case
  proof (cases "unat v < length hist")
    case True
    then show ?thesis by (simp add: uniform_image_Suc Suc.IH)
  next
    case False
    then show ?thesis by (simp add: uniform_image_Suc Suc.IH list_update_beyond)
  qed
qed

lemma computeHistogram_uniform_zero:
  assumes "0 < n"
  shows "computeHistogram (uniform_image n 0 0 0 a) = Some 1 # replicate 255 (Some 0)"
proof -
  have "replicate 256 (0 :: nat) = 0 # replicate 255 0"
    by (simp add: replicate_Suc [symmetric] del: replicate_Suc)
  then show ?thesis
    using assms by (simp add: computeHistogram_def tally_uniform_image)
qed

lemma zip_zeros_sum:
  "sum_list (map (\<lambda>(p, i). p * f i) (zip (replicate k (0 :: real)) ns)) = 0"
proof (induction k arbitrary: ns)
  case 0
  then show ?case by simp
next
  case (Suc k)
  then show ?case by (cases ns) simp_all
qed

lemma spike_features:
  "histMean (Some 1 # replicate 255 (Some 0)) = Some 0"
  "histVar (Some 1 # replicate 255 (Some 0)) (Some 0) = Some 0"
  "histEntropy (Some 1 # replicate 255 (Some 0)) = 0"
proof -
  have spike: "Some 1 # replicate 255 (Some 0) = map Some (1 # replicate 255 (0 :: real))"
    by simp
  have idx: "[0..<length (1 # replicate 255 (0 :: real))] = 0 # [1..<256]"
    by (simp add: upt_conv_Cons)
  show "histMean (Some 1 # replicate 255 (Some 0)) = Some 0"
    unfolding spike histMean_Some idx
    using zip_zeros_sum [of real 255 "[1..<256]"] by simp
  show "histVar (Some 1 # replicate 255 (Some 0)) (Some 0) = Some 0"
    unfolding spike histVar_Some idx
    using zip_zeros_sum [of "\<lambda>i. (real i - 0) * (real i - 0)" 255 "[1..<256]"]
    by (simp add: mult.assoc)
  have "sum_list (map entropy_term (replicate k 0)) = 0" for k
    by (induction k) (simp_all add: entropy_term_def)
  then show "histEntropy (Some 1 # replicate 255 (Some 0)) = 0"
    unfolding spike histEntropy_sum by (simp add: entropy_term_def)
qed


lemma exp_1_bounds: "271825 / 100000 < exp (1 :: real) \<and> exp (1 :: real) < 271833 / 100000"
proof -
  from Maclaurin_exp_le [of 1 8] obtain t :: real
    where t: "\<bar>t\<bar> \<le> 1" "exp 1 = (\<Sum>m<8. 1 ^ m / fact m) + exp t / fact 8 * 1 ^ 8"
    by auto
  have s: "(\<Sum>m<8. (1 :: real) ^ m / fact m) = 685 / 252"
    by (simp add: eval_nat_numeral)
  have f: "fact 8 = (40320 :: real)"
    by (simp add: eval_nat_numeral)
  have "exp t \<le> exp 1" using t(1) by simp
  then have up: "exp t \<le> 3" using exp_le by linarith
  have lo: "0 < exp t" by simp
  have e: "exp (1 :: real) = 685 / 252 + exp t / 40320"
    using t(2) unfolding s f by simp
  have "exp t / 40320 \<le> 3 / 40320" using up by (simp add: divide_right_mono)
  moreover have "0 < exp t / 40320" using lo by simp
  ultimately show ?thesis unfolding e by linarith
qed

lemma logistic_minus_1:
  "26893 / 100000 < logistic (- 1) \<and> logistic (- 1) < 26895 / 100000"
proof -
  have pos: "0 < 1 + exp (1 :: real)" by (simp add: add_pos_pos)
  have eq: "logistic (- 1) = 1 / (1 + exp 1)" by (simp add: logistic_def)
  have "26893 / 100000 * (1 + exp (1 :: real)) < 1"
    using exp_1_bounds [THEN conjunct2] by (simp add: algebra_simps)
  then have lo: "26893 / 100000 < 1 / (1 + exp (1 :: real))"
    using pos by (simp only: pos_less_divide_eq)
  have "1 < 26895 / 100000 * (1 + exp (1 :: real))"
    using exp_1_bounds [THEN conjunct1] by (simp add: algebra_simps)
  then have hi: "1 / (1 + exp (1 :: real)) < 26895 / 100000"
    using pos by (simp only: pos_divide_less_eq)
  from lo hi show ?thesis unfolding eq ..
qed


lemma sample_uniform_image:
  assumes "k < n"
  shows "sample (uniform_image n v g b a) (int k * 4) = Some (real (unat v))"
proof -
  have "nat (int k * 4) = 4 * k" by simp
  moreover have "int k * 4 < int (length (uniform_image n v g b a))" using assms by simp
  ultimately show ?thesis
    using uniform_image_nth [OF assms, of v g b a] by (simp add: sample_def)
qed

lemma pixel_clamped_uniform_image:
  assumes "0 < w" and "0 < h"
  shows "pixel_clamped (uniform_image (w * h) v g b a) w h p q = real (unat v)"
proof -
  let ?px = "clamp p 0 (int w - 1)" and ?py = "clamp q 0 (int h - 1)"
  have cx: "0 \<le> ?px \<and> ?px \<le> int w - 1" using assms(1) by (intro clamp_range) simp
  have cy: "0 \<le> ?py \<and> ?py \<le> int h - 1" using assms(2) by (intro clamp_range) simp
  from cell_index_bound [of ?px "int w" ?py "int h"] cx cy
  have b: "0 \<le> (?py * int w + ?px) * 4" "(?py * int w + ?px) * 4 < 4 * int w * int h"
    by simp_all
  define k where "k = nat (?py * int w + ?px)"
  have k: "int k = ?py * int w + ?px" using b(1) by (simp add: k_def)
  have "int k < int (w * h)" using b(2) unfolding k by simp
  then have lt: "k < w * h" by (simp only: of_nat_less_iff)
  have "nat ((?py * int w + ?px) * 4) = 4 * k"
    unfolding k [symmetric] by simp
  then show ?thesis
    unfolding pixel_clamped_def using uniform_image_nth [OF lt, of v g b a] by simp
qed

lemma computeSobelEdges_uniform_image:
  "computeSobelEdges (uniform_image (w * h) v g b a) w h = replicate (w * h) (Some 0)"
proof (rule nth_equalityI)
  show "length (computeSobelEdges (uniform_image (w * h) v g b a) w h)
      = length (replicate (w * h) (Some (0 :: real)))"
    by simp
next
  fix j
  assume "j < length (computeSobelEdges (uniform_image (w * h) v g b a) w h)"
  then have j: "j < w * h" by simp
  have w: "0 < w" using j by (cases w) simp_all
  have h: "0 < h" using j by (cases h) simp_all
  have x: "j mod w < w" using w by simp
  have y: "j div w < h" using j by (simp add: less_mult_imp_div_less mult.commute)
  let ?U = "uniform_image (w * h) v g b a"
  have len: "4 * w * h \<le> length ?U" by simp
  have zero: "sobel_at ?U (int w) (int h) p q = Some 0" for p q
    unfolding sobel_at_eq [OF len w h] sobel_gx_def sobel_gy_def Let_def
      pixel_clamped_uniform_image [OF w h]
    by (simp add: hypot_def)
  have "computeSobelEdges ?U w h ! (j div w * w + j mod w) = Some 0"
    unfolding computeSobelEdges_nth [OF x y] zero by simp
  then show "computeSobelEdges ?U w h ! j = replicate (w * h) (Some 0) ! j"
    using j by (simp only: div_mult_mod_eq nth_replicate)
qed

lemma fold_add_zeros: "fold (\<lambda>v s. s + v) (replicate m (0 :: real)) s = s"
  by (induction m) simp_all

lemma mean_zeros: "0 < m \<Longrightarrow> mean (replicate m 0) = Some 0"
  by (simp add: mean_def fold_add_zeros del: fold_replicate)

lemma std_zeros: "std (replicate m 0) (Some (Some 0)) = Some 0"
proof -
  have "fold (\<lambda>v s. do { a \<leftarrow> s; c \<leftarrow> Some 0; Some (a + (v - c) * (v - c)) })
      (replicate m (0 :: real)) (Some 0) = Some 0"
    by (induction m) simp_all
  then show ?thesis by (simp add: std_def del: fold_replicate)
qed

lemma percentiles_zeros:
  assumes "0 < m"
  shows "percentiles (replicate m 0) [50, 90, 99] = [Some 0, Some 0, Some 0]"
proof -
  have ne: "replicate m (0 :: real) \<noteq> []" using assms by simp
  have srt: "sort (replicate m (0 :: real)) = replicate m 0"
    by (rule sorted_sort_id) (simp add: sorted_replicate)
  have "replicate m (0 :: real) ! nat (rank_index (int m) p) = 0" for p
    using rank_index_range [of "int m" p] assms by (intro nth_replicate) (simp add: nat_less_iff)
  then show ?thesis
    unfolding percentiles_eq [OF ne] srt by simp
qed

lemma computeTextureEnergy_uniform_image:
  assumes "0 < w * h"
  shows "computeTextureEnergy (uniform_image (w * h) v g b a) w h = Some 0"
proof -
  let ?U = "uniform_image (w * h) v g b a"
  let ?step = "\<lambda>y x energy.
     let i = (int y * int w + int x) * 4 in
     do { e \<leftarrow> energy;
          a \<leftarrow> sample ?U i;
          b \<leftarrow> sample ?U (i + 4);
          c \<leftarrow> sample ?U (i + int w * 4);
          Some (e + (\<bar>a - b\<bar> + \<bar>a - c\<bar>)) }"
  let ?P = "\<lambda>s :: number. s = Some 0"
  have step: "?P (?step y x t)" if "x \<in> set [0..<w - 1]" "y \<in> set [0..<h - 1]" "?P t" for x y t
  proof -
    have xy: "x < w" "y < h" "Suc x < w" "Suc y < h" using that(1,2) by auto
    have e0: "(int y * int w + int x) * 4 = int (y * w + x) * 4" by simp
    have e1: "(int y * int w + int x) * 4 + 4 = int (y * w + Suc x) * 4" by simp
    have e2: "(int y * int w + int x) * 4 + int w * 4 = int (Suc y * w + x) * 4"
      by (simp add: algebra_simps)
    show ?thesis
      unfolding Let_def e1 e2 unfolding e0
      using that(3)
      by (simp only: sample_uniform_image [OF cell_in_grid [OF xy(1,2)]]
          sample_uniform_image [OF cell_in_grid [OF xy(3,2)]]
          sample_uniform_image [OF cell_in_grid [OF xy(1,4)]]) simp
  qed
  have row: "?P (fold (?step y) [0..<w - 1] t)" if "y \<in> set [0..<h - 1]" "?P t" for y t
    by (rule fold_invariant [where P = ?P]) (use that step in blast)+
  have "?P (fold (\<lambda>y. fold (?step y) [0..<w - 1]) [0..<h - 1] (Some 0))"
    by (rule fold_invariant [where P = ?P]) (use row in blast)+
  then show ?thesis
    using assms unfolding computeTextureEnergy_def Let_def by simp
qed


lemma features_gray128:
  "extract_features (preprocess gray128) size_px =
     [(''histMean'', Some 0), (''histVar'', Some 0), (''histEntropy'', Some 0),
      (''edgeMean'', Some 0), (''edgeStd'', Some 0), (''edgeP50'', Some 0),
      (''edgeP90'', Some 0), (''edgeP99'', Some 0), (''textureE'', Some 0)]"
proof -
  have pos: "0 < size_px * size_px" using size_px_pos by simp
  have those_zeros: "those (replicate m (Some (0 :: real))) = Some (replicate m 0)" for m
    by (induction m) simp_all
  show ?thesis
    unfolding extract_features_def preprocess_gray128 Let_def
      computeHistogram_uniform_zero [OF pos] spike_features
      computeSobelEdges_uniform_image those_zeros
      computeTextureEnergy_uniform_image [OF pos]
    by (simp add: mean_zeros [OF pos] std_zeros percentiles_zeros [OF pos])
qed

lemma score_gray128: "score (extract_features (preprocess gray128) size_px) = Some (- 1)"
  unfolding features_gray128 score_Some by (simp add: bias_def)

lemma length_gray128: "length gray128 = 4 * size_px * size_px"
  by (simp add: gray128_def)

lemma analyzeCtVsMri_gray128:
  "analyzeCtVsMri gray128 =
     Inr \<lparr>modality = CT, confidence = Some (1 - logistic (- 1)),
          features = [(''histMean'', Some 0), (''histVar'', Some 0), (''histEntropy'', Some 0),
            (''edgeMean'', Some 0), (''edgeStd'', Some 0), (''edgeP50'', Some 0),
            (''edgeP90'', Some 0), (''edgeP99'', Some 0), (''textureE'', Some 0)]\<rparr>"
proof -
  have "\<not> 1 / 2 < logistic (- 1)"
    using logistic_minus_1 by linarith
  then show ?thesis
    unfolding analyzeCtVsMri_eq [OF length_gray128] classify_def Let_def score_gray128
    by (simp add: features_gray128)
qed

text \<open>
  C1, as stated, fails. On the 256x256 picture of uniform gray 128 the normalisation
  maps every luma to 0: bin 128 of the histogram is empty, the score is \<open>-1\<close> and not
  \<open>-2.28\<close>, \<open>probMRI\<close> is above 0.26 and the confidence below 0.74.
\<close>

theorem uniform_gray_scenario_as_stated_fails:
  "computeHistogram (preprocess gray128) ! 128 = Some 0
   \<and> computeHistogram (preprocess gray128) ! 128 \<noteq> Some 1
   \<and> score (extract_features (preprocess gray128) size_px) = Some (- 1)
   \<and> score (extract_features (preprocess gray128) size_px) \<noteq> Some (- 2.28)
   \<and> analyzeCtVsMri gray128 =
       Inr \<lparr>modality = CT, confidence = Some (1 - logistic (- 1)),
          features = [(''histMean'', Some 0), (''histVar'', Some 0), (''histEntropy'', Some 0),
            (''edgeMean'', Some 0), (''edgeStd'', Some 0), (''edgeP50'', Some 0),
            (''edgeP90'', Some 0), (''edgeP99'', Some 0), (''textureE'', Some 0)]\<rparr>
   \<and> 0.26 < logistic (- 1)
   \<and> 1 - logistic (- 1) < 0.74"
proof -
  have pos: "0 < size_px * size_px" using size_px_pos by simp
  have "computeHistogram (preprocess gray128) ! 128 = Some 0"
    unfolding preprocess_gray128 computeHistogram_uniform_zero [OF pos] by simp
  moreover have "0.26 < logistic (- 1)" "1 - logistic (- 1) < 0.74"
    using logistic_minus_1 by simp_all
  ultimately show ?thesis
    using score_gray128 analyzeCtVsMri_gray128 by simp
qed

text \<open>
  C1, amended. On the 256x256 picture of uniform gray 128 the normalised picture has
  luma 0 everywhere, the histogram is a single spike at bin 0, all nine features are 0,
  the score is the bias \<open>-1.0\<close>, \<open>probMRI = logistic (-1)\<close> is 0.2689 up to
  \<open>0.0001\<close>, the label is CT and the confidence is 0.7311 up to \<open>0.0001\<close>.
\<close>

theorem uniform_gray_scenario:
  "preprocess gray128 = uniform_image (size_px * size_px) 0 0 0 255
   \<and> computeHistogram (preprocess gray128) = Some 1 # replicate 255 (Some 0)
   \<and> extract_features (preprocess gray128) size_px =
       [(''histMean'', Some 0), (''histVar'', Some 0), (''histEntropy'', Some 0),
        (''edgeMean'', Some 0), (''edgeStd'', Some 0), (''edgeP50'', Some 0),
        (''edgeP90'', Some 0), (''edgeP99'', Some 0), (''textureE'', Some 0)]
   \<and> score (extract_features (preprocess gray128) size_px) = Some (- 1.0)
   \<and> analyzeCtVsMri gray128 =
       Inr \<lparr>modality = CT, confidence = Some (1 - logistic (- 1)),
          features = extract_features (preprocess gray128) size_px\<rparr>
   \<and> \<bar>logistic (- 1) - 0.2689\<bar> < 0.0001
   \<and> \<bar>(1 - logistic (- 1)) - 0.7311\<bar> < 0.0001"
proof -
  have pos: "0 < size_px * size_px" using size_px_pos by simp
  have "computeHistogram (preprocess gray128) = Some 1 # replicate 255 (Some 0)"
    unfolding preprocess_gray128 by (rule computeHistogram_uniform_zero [OF pos])
  moreover have "\<bar>logistic (- 1) - 0.2689\<bar> < 0.0001" "\<bar>(1 - logistic (- 1)) - 0.7311\<bar> < 0.0001"
    using logistic_minus_1 by simp_all
  ultimately show ?thesis
    using preprocess_gray128 features_gray128 score_gray128 analyzeCtVsMri_gray128 by simp
qed



section \<open>The heat map\<close>

lemma length_copy_red [simp]: "length (copy_red data) = length data"
  by (induction data rule: copy_red.induct) simp_all

lemma short_quad_index: "4 * k < n \<Longrightarrow> n < 4 \<Longrightarrow> k = (0 :: nat)"
  by simp

lemma copy_red_nth: "4 * k < length data \<Longrightarrow> copy_red data ! (4 * k) = data ! (4 * k)"
proof (induction data arbitrary: k rule: copy_red.induct)
  case (1 r g b a rest)
  show ?case
  proof (cases k)
    case 0
    then show ?thesis by simp
  next
    case (Suc j)
    with "1.prems" have "4 * j < length rest" by simp
    from "1.IH" [OF this] show ?thesis
      unfolding Suc copy_red.simps using nth_quad_Suc [of _ _ _ _ _ j 0] by simp
  qed
qed (auto dest!: short_quad_index)

lemma window_coordinate:
  "0 < n \<Longrightarrow> 0 \<le> min (int n - 1) (max 0 p) \<and> min (int n - 1) (max 0 p) \<le> int n - 1"
  by simp

lemma sample_window:
  assumes "4 * w * h \<le> length gray" and "0 < w" and "0 < h"
  shows "\<exists>k<w * h. sample gray ((min (int h - 1) (max 0 q) * int w
                                 + min (int w - 1) (max 0 p)) * 4)
                     = Some (real (unat (gray ! (4 * k))))"
proof -
  let ?xx = "min (int w - 1) (max 0 p)" and ?yy = "min (int h - 1) (max 0 q)"
  note cx = window_coordinate [OF assms(2), of p] and cy = window_coordinate [OF assms(3), of q]
  from cell_index_bound [of ?xx "int w" ?yy "int h"] cx cy
  have b: "0 \<le> (?yy * int w + ?xx) * 4" "(?yy * int w + ?xx) * 4 < 4 * int w * int h"
    by simp_all
  define k where "k = nat (?yy * int w + ?xx)"
  have k: "int k = ?yy * int w + ?xx" using b(1) by (simp add: k_def)
  have "int k < int (w * h)" using b(2) unfolding k by simp
  then have lt: "k < w * h" by (simp only: of_nat_less_iff)
  have idx: "nat ((?yy * int w + ?xx) * 4) = 4 * k"
    unfolding k [symmetric] by simp
  have "4 * int w * int h \<le> int (length gray)"
    using assms(1) by (metis (mono_tags) of_nat_le_iff of_nat_mult of_nat_numeral)
  then have "sample gray ((?yy * int w + ?xx) * 4)
      = Some (real (unat (gray ! nat ((?yy * int w + ?xx) * 4))))"
    using b by (intro sample_in) linarith+
  then show ?thesis using lt unfolding idx by blast
qed

lemma window_count:
  "snd (snd (fold (\<lambda>dy. fold (\<lambda>dx. window_step gray w h x y dy dx) xs) ys s))
     = snd (snd s) + length ys * length xs"
proof -
  have inner: "snd (snd (fold (\<lambda>dx. window_step gray w h x y dy dx) xs s))
      = snd (snd s) + length xs" for dy s
    by (induction xs arbitrary: s) (simp_all add: window_step_def split_beta Let_def)
  show ?thesis
    by (induction ys arbitrary: s) (simp_all add: inner)
qed

lemma window_invariant:
  assumes "\<And>dy dx t. P t \<Longrightarrow> P (window_step gray w h x y dy dx t)" and "P s"
  shows "P (fold (\<lambda>dy. fold (\<lambda>dx. window_step gray w h x y dy dx) xs) ys s)"
proof -
  have row: "P (fold (\<lambda>dx. window_step gray w h x y dy dx) xs t)" if "P t" for dy t
    by (rule fold_invariant [where P = P]) (use that assms(1) in blast)+
  show ?thesis
    by (rule fold_invariant [where P = P]) (use assms(2) row in blast)+
qed


lemma window_length: "length [- radius..radius] = 5"
  by (simp add: radius_def window_def)

lemma local_variance_rational:
  assumes "4 * w * h \<le> length gray" and "0 < w" and "0 < h"
  shows "\<exists>z :: int. local_variance gray (int w) (int h) x y = Some (real_of_int z / 625)"
proof -
  let ?F = "fold (\<lambda>dy. fold (\<lambda>dx. window_step gray (int w) (int h) x y dy dx)
                [- radius..radius]) [- radius..radius] (Some 0, Some 0, 0)"
  let ?P = "\<lambda>t :: number \<times> number \<times> nat.
    \<exists>(a :: int) (b :: int) n. t = (Some (real_of_int a), Some (real_of_int b), n)"
  have step: "?P (window_step gray (int w) (int h) x y dy dx t)" if "?P t" for dy dx t
  proof -
    from that obtain a b :: int and n
      where t: "t = (Some (real_of_int a), Some (real_of_int b), n)" by blast
    from sample_window [OF assms, of "y + dy" "x + dx"] obtain k
      where k: "sample gray ((min (int h - 1) (max 0 (y + dy)) * int w
                              + min (int w - 1) (max 0 (x + dx))) * 4)
                = Some (real (unat (gray ! (4 * k))))" by blast
    define c where "c = int (unat (gray ! (4 * k)))"
    have c: "real (unat (gray ! (4 * k))) = real_of_int c" by (simp add: c_def)
    have "window_step gray (int w) (int h) x y dy dx t =
        (Some (real_of_int (a + c)), Some (real_of_int (b + c * c)), Suc n)"
      unfolding window_step_def t Let_def prod.case k c by simp
    then show ?thesis by blast
  qed
  have "?P ?F"
    by (rule window_invariant [where P = ?P]) (use step in auto)
  then obtain a b :: int and n
    where F: "?F = (Some (real_of_int a), Some (real_of_int b), n)" by blast
  have "snd (snd ?F) = 25"
    unfolding window_count window_length by simp
  then have n: "n = 25" unfolding F by simp
  have "local_variance gray (int w) (int h) x y
      = Some (real_of_int b / 25 - real_of_int a / 25 * (real_of_int a / 25))"
    unfolding local_variance_def F n by (simp add: Let_def)
  also have "real_of_int b / 25 - real_of_int a / 25 * (real_of_int a / 25)
      = real_of_int (25 * b - a * a) / 625"
    by simp
  finally show ?thesis by blast
qed

lemma local_variance_flat:
  assumes "4 * w * h \<le> length gray" and "0 < w" and "0 < h"
    and "\<forall>k<w * h. gray ! (4 * k) = c"
  shows "local_variance gray (int w) (int h) x y = Some 0"
proof -
  let ?F = "fold (\<lambda>dy. fold (\<lambda>dx. window_step gray (int w) (int h) x y dy dx)
                [- radius..radius]) [- radius..radius] (Some 0, Some 0, 0)"
  define C where "C = real (unat c)"
  let ?P = "\<lambda>t :: number \<times> number \<times> nat.
    \<exists>n. t = (Some (real n * C), Some (real n * (C * C)), n)"
  have step: "?P (window_step gray (int w) (int h) x y dy dx t)" if "?P t" for dy dx t
  proof -
    from that obtain n where t: "t = (Some (real n * C), Some (real n * (C * C)), n)" by blast
    from sample_window [OF assms(1-3), of "y + dy" "x + dx"] assms(4)
    have k: "sample gray ((min (int h - 1) (max 0 (y + dy)) * int w
                              + min (int w - 1) (max 0 (x + dx))) * 4) = Some C"
      unfolding C_def by auto
    have "window_step gray (int w) (int h) x y dy dx t =
        (Some (real (Suc n) * C), Some (real (Suc n) * (C * C)), Suc n)"
      unfolding window_step_def t Let_def prod.case k by (simp add: algebra_simps)
    then show ?thesis by blast
  qed
  have "?P ?F"
    by (rule window_invariant [where P = ?P]) (use step in auto)
  then obtain n where F: "?F = (Some (real n * C), Some (real n * (C * C)), n)" by blast
  have "snd (snd ?F) = 25"
    unfolding window_count window_length by simp
  then have n: "n = 25" unfolding F by simp
  show ?thesis
    unfolding local_variance_def F n by (simp add: Let_def)
qed

lemma length_variance_field [simp]: "length (variance_field gray w h) = w * h"
  by (simp add: variance_field_def)

lemma variance_field_nth:
  assumes "j < w * h"
  shows "variance_field gray w h ! j
           = local_variance gray (int w) (int h) (int (j mod w)) (int (j div w))"
proof -
  have w: "0 < w" using assms by (cases w) simp_all
  have xs: "\<forall>x\<in>set [0..<w]. x < w" by simp
  have j: "j < length (replicate (w * h) (Some (0 :: real)))" using assms by simp
  have "j div w < h" using assms by (simp add: less_mult_imp_div_less mult.commute)
  then show ?thesis
    unfolding variance_field_def
    using w by (subst grid_fill_nth [OF xs j]) simp
qed


lemma minmax_scan_Some:
  "minmax_scan (map Some vs) (Some (mn, mx)) = Some (fold min vs mn, fold max vs mx)"
proof (induction vs arbitrary: mn mx)
  case Nil
  then show ?case by simp
next
  case (Cons v vs)
  have "(if v < mn then v else mn) = min v mn" "(if mx < v then v else mx) = max v mx"
    by (simp_all add: min_def max_def)
  then show ?case by (simp add: Cons.IH)
qed

lemma minmax_scan_start:
  assumes "vs \<noteq> []"
  shows "minmax_scan (map Some vs) None = Some (Min (set vs), Max (set vs))"
proof -
  from assms obtain v rest where vs: "vs = v # rest" by (cases vs) auto
  show ?thesis
    unfolding vs using Min.set_eq_fold [of v rest] Max.set_eq_fold [of v rest]
    by (simp add: minmax_scan_Some)
qed

lemma normalize_field_Some:
  assumes "vs \<noteq> []"
  shows "normalize_field (map Some vs) =
     map Some (map (\<lambda>x. (x - Min (set vs)) / max 0.000001 (Max (set vs) - Min (set vs))) vs)"
  unfolding normalize_field_def minmax_scan_start [OF assms] by (simp add: Let_def)

lemma colormap_zero: "colormap (Some 0) = [0, 0, 255, 180]"
  by (simp add: colormap_def channel_def js_pow_def clamp255_def js_round_def)

lemma normalize_field_zeros:
  "normalize_field (replicate m (Some 0)) = replicate m (Some 0)"
proof (cases m)
  case 0
  then show ?thesis by (simp add: normalize_field_def)
next
  case (Suc k)
  have r: "replicate m (Some (0 :: real)) = map Some (replicate m 0)" by simp
  have ne: "replicate m (0 :: real) \<noteq> []" using Suc by simp
  have "set (replicate m (0 :: real)) = {0}" using Suc by auto
  then show ?thesis
    unfolding r normalize_field_Some [OF ne] by simp
qed

lemma uniform_image_add:
  "uniform_image (m + n) r g b a = uniform_image m r g b a @ uniform_image n r g b a"
  by (simp add: uniform_image_def replicate_add)

lemma concat_rows:
  "concat (replicate h (uniform_image w r g b a)) = uniform_image (w * h) r g b a"
proof (induction h)
  case 0
  then show ?case by simp
next
  case (Suc h)
  then show ?case by (simp add: uniform_image_add)
qed


lemma length_colormap [simp]: "length (colormap v) = 4"
  by (simp add: colormap_def)

lemma colormap_one: "colormap (Some 1) = [255, 0, 0, 180]"
  by (simp add: colormap_def channel_def js_pow_def clamp255_def js_round_def)

lemma upt_rows: "[0..<w * Suc h] = [0..<w * h] @ map (\<lambda>x. h * w + x) [0..<w]"
proof -
  have f: "(\<lambda>x. h * w + x) = (\<lambda>i. i + w * h)"
    by (rule ext) (simp only: add.commute mult.commute)
  have "[0..<w * h + w] = [0..<w * h] @ [w * h..<w * h + w]"
    by (rule upt_add_eq_append) simp
  also have "[w * h..<w * h + w] = [w * h..<w + w * h]"
    by (simp only: add.commute)
  also have "\<dots> = map (\<lambda>i. i + w * h) [0..<w]"
    by (rule map_add_upt [symmetric])
  finally show ?thesis unfolding f by (simp only: mult_Suc_right add.commute)
qed

lemma concat_grid:
  "concat (map (\<lambda>y. concat (map (\<lambda>x. f (y * w + x)) [0..<w])) [0..<h])
     = concat (map f [0..<w * h])"
proof (induction h)
  case 0
  then show ?case by simp
next
  case (Suc h)
  show ?case
    unfolding upt_rows by (simp add: Suc.IH comp_def)
qed

lemma pixel_at_concat:
  assumes "\<And>x. length (g x) = 4" and "k < length xs"
  shows "pixel_at (concat (map g xs)) k = g (xs ! k)"
  using assms(2)
proof (induction xs arbitrary: k)
  case Nil
  then show ?case by simp
next
  case (Cons x xs)
  show ?case
  proof (cases k)
    case 0
    then show ?thesis using assms(1) [of x] by (simp add: pixel_at_def)
  next
    case (Suc j)
    with Cons.prems have "j < length xs" by simp
    from Cons.IH [OF this] show ?thesis
      unfolding Suc pixel_at_def using assms(1) [of x] by simp
  qed
qed

lemma heatmap_pixel:
  assumes "k < w * h"
  shows "pixel_at (drawGradCAMLikeHeatmap data w h) k
           = colormap (normalize_field (variance_field (copy_red data) w h) ! k)"
proof -
  let ?n = "normalize_field (variance_field (copy_red data) w h)"
  have "drawGradCAMLikeHeatmap data w h = concat (map (\<lambda>k. colormap (?n ! k)) [0..<w * h])"
    unfolding drawGradCAMLikeHeatmap_def Let_def
    using concat_grid [of "\<lambda>k. colormap (?n ! k)" w h] by simp
  then show ?thesis
    using pixel_at_concat [of "\<lambda>k. colormap (?n ! k)" k "[0..<w * h]"] assms by simp
qed


lemma variance_field_Some:
  assumes "4 * w * h \<le> length gray"
  shows "\<exists>vs. variance_field gray w h = map Some vs \<and> length vs = w * h
           \<and> (\<forall>v\<in>set vs. \<exists>z :: int. v = real_of_int z / 625)"
proof -
  have cell: "\<exists>z :: int. variance_field gray w h ! j = Some (real_of_int z / 625)"
    if j: "j < w * h" for j
  proof -
    have w: "0 < w" using j by (cases w) simp_all
    have h: "0 < h" using j by (cases h) simp_all
    show ?thesis
      unfolding variance_field_nth [OF j] by (rule local_variance_rational [OF assms w h])
  qed
  then have "\<forall>j<length (variance_field gray w h). \<exists>v. variance_field gray w h ! j = Some v"
    by auto
  from those_all_Some [OF this] obtain vs where vs: "variance_field gray w h = map Some vs" ..
  then have len: "length vs = w * h"
    using length_variance_field [of gray w h] by simp
  have "\<exists>z :: int. v = real_of_int z / 625" if "v \<in> set vs" for v
  proof -
    from that obtain j where j: "j < length vs" "vs ! j = v" by (auto simp: in_set_conv_nth)
    with cell [of j] len have "\<exists>z :: int. map Some vs ! j = Some (real_of_int z / 625)"
      unfolding vs by simp
    then show ?thesis using j by simp
  qed
  with vs len show ?thesis by blast
qed

lemma heatmap_nonconstant:
  assumes "length data = 4 * w * h" and "i < w * h" and "j < w * h"
    and "variance_field (copy_red data) w h ! i \<noteq> variance_field (copy_red data) w h ! j"
  shows "\<exists>vs ns. variance_field (copy_red data) w h = map Some vs
           \<and> normalize_field (variance_field (copy_red data) w h) = map Some ns
           \<and> length ns = w * h \<and> Min (set ns) = 0 \<and> Max (set ns) = 1
           \<and> (\<exists>k<w * h. vs ! k = Min (set vs)) \<and> (\<exists>k<w * h. vs ! k = Max (set vs))
           \<and> (\<forall>k<w * h. vs ! k = Min (set vs) \<longrightarrow>
                 ns ! k = 0 \<and> pixel_at (drawGradCAMLikeHeatmap data w h) k = [0, 0, 255, 180])
           \<and> (\<forall>k<w * h. vs ! k = Max (set vs) \<longrightarrow>
                 ns ! k = 1 \<and> pixel_at (drawGradCAMLikeHeatmap data w h) k = [255, 0, 0, 180])"
proof -
  have len: "4 * w * h \<le> length (copy_red data)" using assms(1) by simp
  from variance_field_Some [OF len] obtain vs
    where vs: "variance_field (copy_red data) w h = map Some vs" "length vs = w * h"
      and grid: "\<forall>v\<in>set vs. \<exists>z :: int. v = real_of_int z / 625" by blast
  have ne: "vs \<noteq> []" using vs(2) assms(2) by auto
  have fin: "finite (set vs)" and nes: "set vs \<noteq> {}" using ne by simp_all
  let ?lo = "Min (set vs)" and ?hi = "Max (set vs)"
  have mem: "vs ! i \<in> set vs" "vs ! j \<in> set vs" using assms(2,3) vs(2) by simp_all
  have "vs ! i \<noteq> vs ! j" using assms(2,3,4) vs by simp
  moreover have "?lo \<le> vs ! i" "?lo \<le> vs ! j" "vs ! i \<le> ?hi" "vs ! j \<le> ?hi"
    using mem fin by simp_all
  ultimately have lt: "?lo < ?hi" by linarith
  from grid Min_in [OF fin nes] obtain z1 :: int where z1: "?lo = real_of_int z1 / 625" by blast
  from grid Max_in [OF fin nes] obtain z2 :: int where z2: "?hi = real_of_int z2 / 625" by blast
  have "z1 < z2" using lt unfolding z1 z2 by (simp add: divide_strict_right_mono)
  then have "real_of_int z1 + 1 \<le> real_of_int z2" by linarith
  then have gap: "1 / 625 \<le> ?hi - ?lo" unfolding z1 z2 by (simp add: field_simps)
  then have rng: "max 0.000001 (?hi - ?lo) = ?hi - ?lo" by (simp add: max_def)
  let ?n = "\<lambda>x. (x - ?lo) / (?hi - ?lo)"
  let ?ns = "map ?n vs"
  have norm: "normalize_field (variance_field (copy_red data) w h) = map Some ?ns"
    unfolding vs(1) normalize_field_Some [OF ne] rng ..
  have pos: "0 < ?hi - ?lo" using lt by simp
  have n_lo: "?n ?lo = 0" by simp
  then have zero: "0 \<in> set ?ns" using Min_in [OF fin nes] by force
  have n_hi: "?n ?hi = 1" using pos by simp
  then have one: "1 \<in> set ?ns" using Max_in [OF fin nes] by force
  have lower: "0 \<le> ?n x" if "x \<in> set vs" for x
    using that fin pos by (simp add: divide_nonneg_pos)
  have upper: "?n x \<le> 1" if "x \<in> set vs" for x
    using that fin pos by (simp add: divide_le_eq_1)
  have mn: "Min (set ?ns) = 0"
    by (rule Min_eqI) (use zero lower in auto)
  have mx: "Max (set ?ns) = 1"
    by (rule Max_eqI) (use one upper in auto)
  have ex_lo: "\<exists>k<w * h. vs ! k = ?lo"
    using Min_in [OF fin nes] vs(2) by (auto simp: in_set_conv_nth)
  have ex_hi: "\<exists>k<w * h. vs ! k = ?hi"
    using Max_in [OF fin nes] vs(2) by (auto simp: in_set_conv_nth)
  have px: "pixel_at (drawGradCAMLikeHeatmap data w h) k = colormap (Some (?n (vs ! k)))"
    if "k < w * h" for k
    unfolding heatmap_pixel [OF that] norm using that vs(2) by simp
  have at_lo: "?ns ! k = 0 \<and> pixel_at (drawGradCAMLikeHeatmap data w h) k = [0, 0, 255, 180]"
    if "k < w * h" "vs ! k = ?lo" for k
    using that vs(2) n_lo by (simp add: px colormap_zero)
  have at_hi: "?ns ! k = 1 \<and> pixel_at (drawGradCAMLikeHeatmap data w h) k = [255, 0, 0, 180]"
    if "k < w * h" "vs ! k = ?hi" for k
    using that vs(2) n_hi by (simp add: px colormap_one)
  show ?thesis
    using vs norm mn mx ex_lo ex_hi at_lo at_hi
    by (intro exI [of _ vs] exI [of _ ?ns]) simp
qed

lemma heatmap_flat:
  assumes "length data = 4 * w * h" and "\<forall>k<w * h. data ! (4 * k) = c"
  shows "variance_field (copy_red data) w h = replicate (w * h) (Some 0)"
    and "drawGradCAMLikeHeatmap data w h = uniform_image (w * h) 0 0 255 180"
proof -
  have len: "4 * w * h \<le> length (copy_red data)" using assms(1) by simp
  have flat: "\<forall>k<w * h. copy_red data ! (4 * k) = c"
    using assms by (simp add: copy_red_nth)
  show vf: "variance_field (copy_red data) w h = replicate (w * h) (Some 0)"
  proof (rule nth_equalityI)
    show "length (variance_field (copy_red data) w h) = length (replicate (w * h) (Some (0 :: real)))"
      by simp
  next
    fix j
    assume "j < length (variance_field (copy_red data) w h)"
    then have j: "j < w * h" by simp
    have w: "0 < w" using j by (cases w) simp_all
    have h: "0 < h" using j by (cases h) simp_all
    show "variance_field (copy_red data) w h ! j = replicate (w * h) (Some 0) ! j"
      unfolding variance_field_nth [OF j] local_variance_flat [OF len w h flat]
      using j by simp
  qed
  have cell: "colormap (replicate (w * h) (Some 0) ! (y * w + x)) = [0, 0, 255, 180]"
    if "x \<in> set [0..<w]" "y \<in> set [0..<h]" for x y
  proof -
    have "y * w + x < w * h" using that by (intro cell_in_grid) simp_all
    then show ?thesis by (simp add: colormap_zero)
  qed
  have row: "concat (map (\<lambda>x. colormap (replicate (w * h) (Some 0) ! (y * w + x))) [0..<w])
      = uniform_image w 0 0 255 180" if "y \<in> set [0..<h]" for y
  proof -
    have "map (\<lambda>x. colormap (replicate (w * h) (Some 0) ! (y * w + x))) [0..<w]
        = map (\<lambda>x. [0, 0, 255, 180]) [0..<w]"
      by (rule map_cong [OF refl]) (use cell that in blast)
    then show ?thesis by (simp add: uniform_image_def map_replicate_const)
  qed
  have "map (\<lambda>y. concat (map (\<lambda>x. colormap (replicate (w * h) (Some 0) ! (y * w + x))) [0..<w]))
      [0..<h] = map (\<lambda>y. uniform_image w 0 0 255 180) [0..<h]"
    by (rule map_cong [OF refl]) (use row in blast)
  then show "drawGradCAMLikeHeatmap data w h = uniform_image (w * h) 0 0 255 180"
    unfolding drawGradCAMLikeHeatmap_def Let_def vf normalize_field_zeros
    by (simp add: map_replicate_const concat_rows)
qed

text \<open>
  C5. For a canvas of \<open>w * h\<close> pixels: when two cells of the local-variance field differ,
  the normalised field has no NaN, least value 0 and greatest value 1, the heat map that
  \<open>drawGradCAMLikeHeatmap\<close> paints is \<open>(0, 0, 255, 180)\<close> at every cell of least variance
  and \<open>(255, 0, 0, 180)\<close> at every cell of greatest variance, and such cells exist; when
  all pixels have one red value, the variance field is zero everywhere and every pixel of
  the heat map is \<open>(0, 0, 255, 180)\<close>.
\<close>

theorem heatmap_normalisation:
  "(length data = 4 * w * h \<and> i < w * h \<and> j < w * h
      \<and> variance_field (copy_red data) w h ! i \<noteq> variance_field (copy_red data) w h ! j
    \<longrightarrow> (\<exists>vs ns. variance_field (copy_red data) w h = map Some vs
           \<and> normalize_field (variance_field (copy_red data) w h) = map Some ns
           \<and> length ns = w * h \<and> Min (set ns) = 0 \<and> Max (set ns) = 1
           \<and> (\<exists>k<w * h. vs ! k = Min (set vs)) \<and> (\<exists>k<w * h. vs ! k = Max (set vs))
           \<and> (\<forall>k<w * h. vs ! k = Min (set vs) \<longrightarrow>
                 ns ! k = 0 \<and> pixel_at (drawGradCAMLikeHeatmap data w h) k = [0, 0, 255, 180])
           \<and> (\<forall>k<w * h. vs ! k = Max (set vs) \<longrightarrow>
                 ns ! k = 1 \<and> pixel_at (drawGradCAMLikeHeatmap data w h) k = [255, 0, 0, 180])))
   \<and> (length data = 4 * w * h \<and> (\<forall>k<w * h. data ! (4 * k) = c)
    \<longrightarrow> variance_field (copy_red data) w h = replicate (w * h) (Some 0)
       \<and> drawGradCAMLikeHeatmap data w h = uniform_image (w * h) 0 0 255 180)"
  using heatmap_nonconstant [of data w h i j] heatmap_flat [of data w h c] by blast

lemma upt3: "[0..<3] = [0, 1, 2]" "[0..<1] = [0]"
  by (simp_all add: upt_rec)

lemma window_offsets: "[- radius..radius] = [- 2, - 1, 0, 1, 2]"
  unfolding radius_def window_def by code_simp

lemma variance_example:
  "variance_field (copy_red example_row) 3 1 = [Some 16, Some 24, Some 24]"
proof -
  have r: "replicate (3 * 1) (Some (0 :: real)) = [Some 0, Some 0, Some 0]"
    by (simp add: numeral_3_eq_3)
  show ?thesis
    unfolding variance_field_def upt3 local_variance_def window_offsets r
    by (simp add: example_row_def window_step_def sample_def Let_def)
qed

theorem heatmap_normalisation_witness:
  "length example_row = 4 * 3 * 1
   \<and> variance_field (copy_red example_row) 3 1 ! 0 = Some 16
   \<and> variance_field (copy_red example_row) 3 1 ! 1 = Some 24
   \<and> pixel_at (drawGradCAMLikeHeatmap example_row 3 1) 0 = [0, 0, 255, 180]
   \<and> pixel_at (drawGradCAMLikeHeatmap example_row 3 1) 1 = [255, 0, 0, 180]
   \<and> pixel_at (drawGradCAMLikeHeatmap example_row 3 1) 2 = [255, 0, 0, 180]
   \<and> length [7, 8, 9, 255 :: u8] = 4 * 1 * 1
   \<and> drawGradCAMLikeHeatmap [7, 8, 9, 255] 1 1 = [0, 0, 255, 180]"
proof -
  have len: "length example_row = 4 * 3 * 1" by (simp add: example_row_def)
  have v: "variance_field (copy_red example_row) 3 1 ! 0 = Some 16"
    "variance_field (copy_red example_row) 3 1 ! 1 = Some 24"
    unfolding variance_example by simp_all
  then have ne: "variance_field (copy_red example_row) 3 1 ! 0
      \<noteq> variance_field (copy_red example_row) 3 1 ! 1" by simp
  have idx: "(0 :: nat) < 3 * 1" "(1 :: nat) < 3 * 1" "(2 :: nat) < 3 * 1" by simp_all
  have prem: "length example_row = 4 * 3 * 1 \<and> (0 :: nat) < 3 * 1 \<and> (1 :: nat) < 3 * 1
      \<and> variance_field (copy_red example_row) 3 1 ! 0 \<noteq> variance_field (copy_red example_row) 3 1 ! 1"
    using len ne idx by blast
  note t = heatmap_normalisation [of example_row 3 1 0 1, THEN conjunct1, THEN mp, OF prem]
  then obtain vs ns where all:
    "variance_field (copy_red example_row) 3 1 = map Some vs
     \<and> normalize_field (variance_field (copy_red example_row) 3 1) = map Some ns
     \<and> length ns = 3 * 1 \<and> Min (set ns) = 0 \<and> Max (set ns) = 1
     \<and> (\<exists>k<3 * 1. vs ! k = Min (set vs)) \<and> (\<exists>k<3 * 1. vs ! k = Max (set vs))
     \<and> (\<forall>k<3 * 1. vs ! k = Min (set vs) \<longrightarrow>
           ns ! k = 0 \<and> pixel_at (drawGradCAMLikeHeatmap example_row 3 1) k = [0, 0, 255, 180])
     \<and> (\<forall>k<3 * 1. vs ! k = Max (set vs) \<longrightarrow>
           ns ! k = 1 \<and> pixel_at (drawGradCAMLikeHeatmap example_row 3 1) k = [255, 0, 0, 180])"
    by (elim exE) (rule that)
  have vs: "variance_field (copy_red example_row) 3 1 = map Some vs"
    by (rule all [THEN conjunct1])
  have lo: "\<forall>k<3 * 1. vs ! k = Min (set vs) \<longrightarrow>
        ns ! k = 0 \<and> pixel_at (drawGradCAMLikeHeatmap example_row 3 1) k = [0, 0, 255, 180]"
    by (rule all [THEN conjunct2, THEN conjunct2, THEN conjunct2, THEN conjunct2, THEN conjunct2, THEN conjunct2, THEN conjunct2, THEN conjunct1])
  have hi: "\<forall>k<3 * 1. vs ! k = Max (set vs) \<longrightarrow>
        ns ! k = 1 \<and> pixel_at (drawGradCAMLikeHeatmap example_row 3 1) k = [255, 0, 0, 180]"
    by (rule all [THEN conjunct2, THEN conjunct2, THEN conjunct2, THEN conjunct2, THEN conjunct2, THEN conjunct2, THEN conjunct2, THEN conjunct2])
  have "map Some vs = map Some [16, 24, 24]" using vs variance_example by simp
  then have vals: "vs = [16, 24, 24]" by (rule map_injective) simp
  have m: "Min (set vs) = 16" "Max (set vs) = 24" unfolding vals by simp_all
  have "vs ! 0 = Min (set vs)" "vs ! 1 = Max (set vs)" "vs ! 2 = Max (set vs)"
    unfolding m unfolding vals by simp_all
  then have a: "pixel_at (drawGradCAMLikeHeatmap example_row 3 1) 0 = [0, 0, 255, 180]"
    "pixel_at (drawGradCAMLikeHeatmap example_row 3 1) 1 = [255, 0, 0, 180]"
    "pixel_at (drawGradCAMLikeHeatmap example_row 3 1) 2 = [255, 0, 0, 180]"
    using lo [rule_format, OF idx(1)] hi [rule_format, OF idx(2)] hi [rule_format, OF idx(3)]
    by simp_all
  have flat: "\<forall>k<1 * 1. [7, 8, 9, 255 :: u8] ! (4 * k) = 7" by simp
  have len1: "length [7, 8, 9, 255 :: u8] = 4 * 1 * 1" by simp
  have "drawGradCAMLikeHeatmap [7, 8, 9, 255] 1 1 = uniform_image (1 * 1) 0 0 255 180"
    using heatmap_normalisation [of "[7, 8, 9, 255]" 1 1 0 0 7, THEN conjunct2] len1 flat
    by (simp only:)
  then have b: "drawGradCAMLikeHeatmap [7, 8, 9, 255] 1 1 = [0, 0, 255, 180]"
    by (simp add: uniform_image_def)
  from len v a len1 b show ?thesis by blast
qed

end
